theory Spec2Isabelle
  imports Main "HOL-Library.Sublist"
begin

section \<open>LogHunter: line records, the log store and its queries\<close>

text \<open>
  A shallow embedding of \<^verbatim>\<open>loghunter.py\<close>. Text is a \<^typ>\<open>string\<close>: its characters are
  the code points 0 to 255, and the classes \<^verbatim>\<open>\d\<close>, \<^verbatim>\<open>\w\<close> and \<^verbatim>\<open>\b\<close> are those of
  Python's \<^verbatim>\<open>str\<close> patterns on these code points. Python integers are \<^typ>\<open>int\<close>.

  A \<open>datetime\<close> is a naive \<^verbatim>\<open>datetime\<close> object (what the timestamp extraction and
  \<^verbatim>\<open>datetime.now()\<close> produce), held as the number of microseconds since
  0001-01-01T00:00:00; a \<^verbatim>\<open>timedelta\<close> is a number of microseconds. An \<open>instant\<close> is any
  \<^verbatim>\<open>datetime\<close> object, as \<^verbatim>\<open>datetime.fromisoformat\<close> returns for any text: naive, or
  aware of its offset from UTC (then held as its UTC time). The timestamp of a line is always
  naive, since the text it is read from has no offset.
\<close>

type_synonym datetime = int
type_synonym timedelta = int

datatype instant = Naive datetime | Aware datetime

subsection \<open>Python built-ins used by the source\<close>

text \<open>
  \<^verbatim>\<open>str.upper\<close> on the ASCII letters. Every other character is left as it is (Python also maps
  some letters above 127; no level name contains one or is the image of one).
\<close>

definition upper_char :: "char \<Rightarrow> char" where
  "upper_char c =
     (case map_of (zip ''abcdefghijklmnopqrstuvwxyz'' ''ABCDEFGHIJKLMNOPQRSTUVWXYZ'') c of
        None \<Rightarrow> c
      | Some u \<Rightarrow> u)"

definition upper :: "string \<Rightarrow> string" where
  "upper s = map upper_char s"

text \<open>
  List slicing \<^verbatim>\<open>xs[start:stop]\<close> with step 1: a negative bound counts from the end, and
  every bound is clamped to the list; an omitted bound is \<open>None\<close>.
\<close>

definition slice_index :: "nat \<Rightarrow> int \<Rightarrow> nat" where
  "slice_index len i = (if i < 0 then nat (max (int len + i) 0) else min (nat i) len)"

definition py_slice :: "'a list \<Rightarrow> int option \<Rightarrow> int option \<Rightarrow> 'a list" where
  "py_slice xs start stop =
     (let len = length xs;
          lo = (case start of None \<Rightarrow> 0 | Some i \<Rightarrow> slice_index len i);
          hi = (case stop of None \<Rightarrow> len | Some j \<Rightarrow> slice_index len j)
      in take (hi - lo) (drop lo xs))"

subsection \<open>Regular expressions\<close>

text \<open>
  The part of Python's \<^verbatim>\<open>re\<close> that the program uses, as a backtracking matcher. \<open>m r s (i, g)\<close>
  lists the states in which \<open>r\<close> can finish when it starts at position \<open>i\<close> of \<open>s\<close>, in the
  order in which Python tries them: a greedy repetition tries one more round before it stops,
  an alternation tries its branches from left to right. The first state is the match Python
  reports. \<open>Rep r lo hi\<close> is \<^verbatim>\<open>r{lo,hi}\<close>, \<open>Many c lo\<close> is \<^verbatim>\<open>c{lo,}\<close> for a character class,
  \<open>Grp k r\<close> is the capturing group number \<open>k\<close>, \<open>WordB\<close> is \<^verbatim>\<open>\b\<close>, \<open>Bol\<close> is \<^verbatim>\<open>^\<close> and
  \<open>Eol\<close> is \<^verbatim>\<open>$\<close> (the end of the text, or just before a newline that ends it).
\<close>

datatype cclass = Digit | Word | Lit char | LitI char | OneOf string

datatype regex =
    Cls cclass
  | WordB
  | Bol
  | Eol
  | Cat "regex list"
  | Alt "regex list"
  | Rep regex nat nat
  | Many cclass nat
  | Grp nat regex

definition is_digit :: "char \<Rightarrow> bool" where
  "is_digit c = (c \<in> set ''0123456789'')"

text \<open>
  \<^verbatim>\<open>\w\<close> is an alphanumeric character or the underscore. Among the code points 0 to 255 the
  alphanumeric ones (\<^verbatim>\<open>str.isalnum\<close>) are the ASCII digits and letters, the letters
  0xAA, 0xB5, 0xBA, 0xC0 to 0xD6, 0xD8 to 0xF6 and 0xF8 to 0xFF, and the numeric characters
  0xB2, 0xB3, 0xB9, 0xBC, 0xBD and 0xBE. \<^verbatim>\<open>\d\<close> has the ASCII digits only.
\<close>

definition is_word :: "char \<Rightarrow> bool" where
  "is_word c =
     (let n = (of_char c :: nat)
      in (48 \<le> n \<and> n \<le> 57) \<or> (65 \<le> n \<and> n \<le> 90) \<or> n = 95 \<or> (97 \<le> n \<and> n \<le> 122) \<or>
         n \<in> {0xAA, 0xB2, 0xB3, 0xB5, 0xB9, 0xBA, 0xBC, 0xBD, 0xBE} \<or>
         (0xC0 \<le> n \<and> n \<le> 0xD6) \<or> (0xD8 \<le> n \<and> n \<le> 0xF6) \<or> (0xF8 \<le> n \<and> n \<le> 0xFF))"

fun in_class :: "cclass \<Rightarrow> char \<Rightarrow> bool" where
  "in_class Digit x = is_digit x"
| "in_class Word x = is_word x"
| "in_class (Lit c) x = (x = c)"
| "in_class (LitI c) x = (upper_char x = upper_char c)"
| "in_class (OneOf cs) x = (x \<in> set cs)"

definition word_at :: "string \<Rightarrow> nat \<Rightarrow> bool" where
  "word_at s i = (i < length s \<and> is_word (s ! i))"

definition at_boundary :: "string \<Rightarrow> nat \<Rightarrow> bool" where
  "at_boundary s i = ((i > 0 \<and> word_at s (i - 1)) \<noteq> word_at s i)"

type_synonym groups = "nat \<rightharpoonup> nat \<times> nat"
type_synonym mstate = "nat \<times> groups"

fun rsize :: "regex \<Rightarrow> nat" where
  "rsize (Cat rs) = Suc (sum_list (map rsize rs))"
| "rsize (Alt rs) = Suc (sum_list (map rsize rs))"
| "rsize (Rep r lo hi) = Suc (rsize r + hi)"
| "rsize (Grp k r) = Suc (rsize r)"
| "rsize r = Suc 0"

function m :: "regex \<Rightarrow> string \<Rightarrow> mstate \<Rightarrow> mstate list" where
  "m (Cls c) s (i, g) = (if i < length s \<and> in_class c (s ! i) then [(Suc i, g)] else [])"
| "m WordB s (i, g) = (if at_boundary s i then [(i, g)] else [])"
| "m Bol s (i, g) = (if i = 0 then [(i, g)] else [])"
| "m Eol s (i, g) =
     (if i = length s \<or> (Suc i = length s \<and> s ! i = CHR 0x0A) then [(i, g)] else [])"
| "m (Cat []) s (i, g) = [(i, g)]"
| "m (Cat (r # rs)) s (i, g) = concat (map (m (Cat rs) s) (m r s (i, g)))"
| "m (Alt []) s (i, g) = []"
| "m (Alt (r # rs)) s (i, g) = m r s (i, g) @ m (Alt rs) s (i, g)"
| "m (Rep r lo 0) s (i, g) = (if lo = 0 then [(i, g)] else [])"
| "m (Rep r lo (Suc hi)) s (i, g) =
     concat (map (m (Rep r (lo - 1) hi) s) (m r s (i, g))) @ (if lo = 0 then [(i, g)] else [])"
| "m (Many c lo) s (i, g) =
     map (\<lambda>k. (i + k, g)) (rev [lo..<Suc (length (takeWhile (in_class c) (drop i s)))])"
| "m (Grp k r) s (i, g) = map (\<lambda>(j, g'). (j, g'(k \<mapsto> (i, j)))) (m r s (i, g))"
  by pat_completeness auto
termination
proof -
  have pos: "0 < rsize r" for r
    by (cases r) simp_all
  show ?thesis
    by (relation "measure (\<lambda>(r, s, st). rsize r)") (simp_all add: pos)
qed


text \<open>
  A match object is its start, its end and its groups. \<^verbatim>\<open>re.match\<close> matches at position 0,
  \<^verbatim>\<open>search\<close> at the leftmost position that matches, and \<^verbatim>\<open>sub\<close> replaces the matches
  from left to right, continuing after each one. After an empty match \<^verbatim>\<open>sub\<close> copies one
  character and goes on; no pattern that the program substitutes has an empty match (section
  \<open>Matches are not empty\<close>).
\<close>

type_synonym match = "nat \<times> nat \<times> groups"

definition re_match_at :: "regex \<Rightarrow> string \<Rightarrow> nat \<Rightarrow> match option" where
  "re_match_at r s i = (case m r s (i, Map.empty) of [] \<Rightarrow> None | (j, g) # _ \<Rightarrow> Some (i, j, g))"

definition re_match :: "regex \<Rightarrow> string \<Rightarrow> match option" where
  "re_match r s = re_match_at r s 0"

fun first_match :: "regex \<Rightarrow> string \<Rightarrow> nat list \<Rightarrow> match option" where
  "first_match r s [] = None"
| "first_match r s (i # is) =
     (case re_match_at r s i of Some mt \<Rightarrow> Some mt | None \<Rightarrow> first_match r s is)"

definition re_search :: "regex \<Rightarrow> string \<Rightarrow> match option" where
  "re_search r s = first_match r s [0..<Suc (length s)]"

definition group0 :: "string \<Rightarrow> match \<Rightarrow> string" where
  "group0 s mt = (case mt of (i, j, g) \<Rightarrow> take (j - i) (drop i s))"

definition group :: "string \<Rightarrow> match \<Rightarrow> nat \<Rightarrow> string" where
  "group s mt k =
     (case mt of (i, j, g) \<Rightarrow> (case g k of None \<Rightarrow> [] | Some (a, b) \<Rightarrow> take (b - a) (drop a s)))"

function sub_from :: "regex \<Rightarrow> string \<Rightarrow> string \<Rightarrow> nat \<Rightarrow> string" where
  "sub_from r repl s i =
     (if length s < i then []
      else case re_match_at r s i of
             None \<Rightarrow> if i < length s then s ! i # sub_from r repl s (Suc i) else []
           | Some (a, j, g) \<Rightarrow>
               if i < j then repl @ sub_from r repl s j
               else repl @ (if i < length s then s ! i # sub_from r repl s (Suc i) else []))"
  by pat_completeness auto
termination
  by (relation "measure (\<lambda>(r, repl, s, i). Suc (length s) - i)") auto

definition re_sub :: "regex \<Rightarrow> string \<Rightarrow> string \<Rightarrow> string" where
  "re_sub r repl s = sub_from r repl s 0"

subsection \<open>The pattern registry\<close>

text \<open>
  \<^verbatim>\<open>LOG_LEVELS\<close> and the entries of \<^verbatim>\<open>PATTERNS\<close> that the program uses; \<open>log_level\<close> is
  compiled with \<^verbatim>\<open>re.IGNORECASE\<close>. \<open>number\<close> is the pattern \<^verbatim>\<open>\b\d+\b\<close> of
  \<^verbatim>\<open>get_top_patterns\<close> and \<open>relative_time\<close> the pattern \<^verbatim>\<open>^(\d+)([smhd])$\<close> of
  \<^verbatim>\<open>parse_time_arg\<close>.
\<close>

definition digit :: regex where
  "digit = Cls Digit"

definition lit :: "string \<Rightarrow> regex" where
  "lit s = Cat (map (\<lambda>c. Cls (Lit c)) s)"

definition lit_i :: "string \<Rightarrow> regex" where
  "lit_i s = Cat (map (\<lambda>c. Cls (LitI c)) s)"

definition LOG_LEVELS :: "string list" where
  "LOG_LEVELS = [''TRACE'', ''DEBUG'', ''INFO'', ''WARN'', ''WARNING'', ''ERROR'', ''FATAL'',
                 ''CRITICAL'']"

definition timestamp_iso :: regex where
  "timestamp_iso =
     Cat [Rep digit 4 4, Cls (Lit CHR ''-''), Rep digit 2 2, Cls (Lit CHR ''-''), Rep digit 2 2,
          Cls (OneOf ''T ''), Rep digit 2 2, Cls (Lit CHR '':''), Rep digit 2 2,
          Cls (Lit CHR '':''), Rep digit 2 2]"

definition timestamp_common :: regex where
  "timestamp_common =
     Cat [Rep digit 2 2, Cls (Lit CHR ''/''), Rep (Cls Word) 3 3, Cls (Lit CHR ''/''),
          Rep digit 4 4, Cls (Lit CHR '':''), Rep digit 2 2, Cls (Lit CHR '':''), Rep digit 2 2,
          Cls (Lit CHR '':''), Rep digit 2 2]"

definition log_level :: regex where
  "log_level = Cat [WordB, Grp 1 (Alt (map lit_i LOG_LEVELS)), WordB]"

definition ip_address :: regex where
  "ip_address =
     Cat [WordB, Rep (Cat [Rep digit 1 3, Cls (Lit CHR ''.'')]) 3 3, Rep digit 1 3, WordB]"

definition exception :: regex where
  "exception = Cat [WordB, Grp 1 (Alt [lit ''Exception'', lit ''Error'', lit ''Traceback'']), WordB]"

definition number :: regex where
  "number = Cat [WordB, Many Digit 1, WordB]"

definition relative_time :: regex where
  "relative_time = Cat [Bol, Grp 1 (Many Digit 1), Grp 2 (Cls (OneOf ''smhd'')), Eol]"

subsection \<open>Errors, integers and instants\<close>

text \<open>
  The exceptions of the program are values. \<open>py_int\<close> is \<^verbatim>\<open>int\<close> on a text of decimal
  digits: it fails with \<^verbatim>\<open>ValueError\<close> when the text has more than 4300 digits (the limit of
  Python 3.11 for the conversion; its message is shortened here). \<^verbatim>\<open>timedelta(...)\<close>
  fails when its number of days exceeds 999999999 in magnitude, and subtracting a
  \<^verbatim>\<open>timedelta\<close> from a \<^verbatim>\<open>datetime\<close> fails when the result leaves the years 1 to 9999; both
  are \<^verbatim>\<open>OverflowError\<close>. Comparing a naive \<^verbatim>\<open>datetime\<close> with an aware one by \<^verbatim>\<open><\<close> or
  \<^verbatim>\<open>>\<close> fails with \<^verbatim>\<open>TypeError\<close>.
\<close>

datatype py_error = ValueError string | OverflowError | TypeError

definition rstrip :: "string \<Rightarrow> string \<Rightarrow> string" where
  "rstrip s chars = rev (dropWhile (\<lambda>c. c \<in> set chars) (rev s))"

definition replace_char :: "string \<Rightarrow> char \<Rightarrow> char \<Rightarrow> string" where
  "replace_char s old new = map (\<lambda>c. if c = old then new else c) s"

definition digit_value :: "char \<Rightarrow> int" where
  "digit_value c =
     (case map_of (zip ''0123456789'' [0, 1, 2, 3, 4, 5, 6, 7, 8, 9]) c of
        None \<Rightarrow> 0
      | Some v \<Rightarrow> v)"

definition digits_value :: "string \<Rightarrow> int" where
  "digits_value ds = foldl (\<lambda>a c. 10 * a + digit_value c) 0 ds"

definition py_int :: "string \<Rightarrow> py_error + int" where
  "py_int ds =
     (if 4300 < length ds
      then Inl (ValueError ''Exceeds the limit (4300 digits) for integer string conversion'')
      else Inr (digits_value ds))"

definition day_us :: int where
  "day_us = 86400000000"

definition datetime_max :: datetime where
  "datetime_max = 3652059 * day_us - 1"

definition timedelta_new :: "int \<Rightarrow> py_error + timedelta" where
  "timedelta_new us = (if \<bar>us div day_us\<bar> > 999999999 then Inl OverflowError else Inr us)"

definition datetime_sub :: "datetime \<Rightarrow> timedelta \<Rightarrow> py_error + instant" where
  "datetime_sub t td =
     (if t - td < 0 \<or> datetime_max < t - td then Inl OverflowError else Inr (Naive (t - td)))"

definition datetime_lt :: "datetime \<Rightarrow> instant \<Rightarrow> py_error + bool" where
  "datetime_lt t b = (case b of Naive t' \<Rightarrow> Inr (t < t') | Aware t' \<Rightarrow> Inl TypeError)"

definition datetime_gt :: "datetime \<Rightarrow> instant \<Rightarrow> py_error + bool" where
  "datetime_gt t b = (case b of Naive t' \<Rightarrow> Inr (t > t') | Aware t' \<Rightarrow> Inl TypeError)"

subsection \<open>The line record and the store\<close>

record logline =
  line :: string
  line_num :: int
  file_path :: string
  timestamp :: "datetime option"
  level :: "string option"

text \<open>
  \<^verbatim>\<open>LogLine.__init__\<close> with \<^verbatim>\<open>_extract_timestamp\<close> and \<^verbatim>\<open>_extract_level\<close>.
  \<^verbatim>\<open>datetime.fromisoformat\<close> belongs to the Python library and is a parameter; the bare
  \<^verbatim>\<open>except\<close> turns each of its failures into \<^verbatim>\<open>None\<close>. Its argument here is the 19
  characters of a match, which hold no offset, so its result is a naive datetime.
\<close>

definition extract_timestamp ::
  "(string \<Rightarrow> py_error + datetime) \<Rightarrow> string \<Rightarrow> py_error + datetime option" where
  "extract_timestamp fromisoformat ln =
     (case re_search timestamp_iso ln of
        Some mt \<Rightarrow>
          (let ts_str = replace_char (group0 ln mt) CHR '' '' CHR ''T''
           in case fromisoformat ts_str of
                Inr d \<Rightarrow> Inr (Some d)
              | Inl e \<Rightarrow> Inr None)
      | None \<Rightarrow> Inr None)"

definition extract_level :: "string \<Rightarrow> string option" where
  "extract_level ln =
     (case re_search log_level ln of
        Some mt \<Rightarrow> Some (upper (group0 ln mt))
      | None \<Rightarrow> None)"

definition LogLine ::
  "(string \<Rightarrow> py_error + datetime) \<Rightarrow> string \<Rightarrow> int \<Rightarrow> string \<Rightarrow> py_error + logline" where
  "LogLine fromisoformat raw num path =
     (let ln = rstrip raw [CHR 0x0A, CHR 0x0D]
      in case extract_timestamp fromisoformat ln of
           Inl e \<Rightarrow> Inl e
         | Inr ts \<Rightarrow>
             Inr \<lparr>line = ln, line_num = num, file_path = path, timestamp = ts,
                  level = extract_level ln\<rparr>)"

record loghunter =
  lines :: "logline list"

text \<open>
  \<^verbatim>\<open>LogLine.matches_level\<close>: \<^verbatim>\<open>not self.level\<close> holds for \<^verbatim>\<open>None\<close> and for the
  empty string.
\<close>

definition matches_level :: "logline \<Rightarrow> string list \<Rightarrow> bool" where
  "matches_level l levels =
     (case level l of
        None \<Rightarrow> False
      | Some lv \<Rightarrow> if lv = [] then False else lv \<in> set (map upper levels))"

definition filter_by_level :: "loghunter \<Rightarrow> string list \<Rightarrow> logline list" where
  "filter_by_level h levels = [l \<leftarrow> lines h. matches_level l levels]"

text \<open>
  \<^verbatim>\<open>LogHunter.filter_by_time_range\<close>: the loop with its two \<^verbatim>\<open>continue\<close> statements.
  A \<^verbatim>\<open>datetime\<close> object is always true, so \<^verbatim>\<open>if line.timestamp\<close> and \<^verbatim>\<open>if start\<close>
  test for \<^verbatim>\<open>None\<close>. The bounds are any instants; a comparison that fails ends the loop
  with its error.
\<close>

fun time_range_loop ::
  "logline list \<Rightarrow> instant option \<Rightarrow> instant option \<Rightarrow> logline list
     \<Rightarrow> py_error + logline list" where
  "time_range_loop [] start end result = Inr result"
| "time_range_loop (l # ls) start end result =
     (case timestamp l of
        None \<Rightarrow> time_range_loop ls start end result
      | Some ts \<Rightarrow>
          (case (case start of None \<Rightarrow> Inr False | Some s \<Rightarrow> datetime_lt ts s) of
             Inl err \<Rightarrow> Inl err
           | Inr before_start \<Rightarrow>
               if before_start then time_range_loop ls start end result
               else
                 (case (case end of None \<Rightarrow> Inr False | Some e \<Rightarrow> datetime_gt ts e) of
                    Inl err \<Rightarrow> Inl err
                  | Inr after_end \<Rightarrow>
                      if after_end then time_range_loop ls start end result
                      else time_range_loop ls start end (result @ [l]))))"

definition filter_by_time_range ::
  "loghunter \<Rightarrow> instant option \<Rightarrow> instant option \<Rightarrow> py_error + logline list" where
  "filter_by_time_range h start end = time_range_loop (lines h) start end []"

text \<open>\<^verbatim>\<open>LogHunter.tail\<close> and \<^verbatim>\<open>LogHunter.head\<close>.\<close>

definition tail :: "loghunter \<Rightarrow> int \<Rightarrow> logline list" where
  "tail h n = (if lines h \<noteq> [] then py_slice (lines h) (Some (- n)) None else [])"

definition head :: "loghunter \<Rightarrow> int \<Rightarrow> logline list" where
  "head h n = (if lines h \<noteq> [] then py_slice (lines h) None (Some n) else [])"

text \<open>
  \<^verbatim>\<open>LogLine.matches_pattern\<close>, and the shorthands \<^verbatim>\<open>get_errors\<close>, \<^verbatim>\<open>get_warnings\<close> and
  \<^verbatim>\<open>get_exceptions\<close>.
\<close>

definition matches_pattern :: "logline \<Rightarrow> regex \<Rightarrow> bool" where
  "matches_pattern l pattern = (re_search pattern (line l) \<noteq> None)"

definition get_errors :: "loghunter \<Rightarrow> logline list" where
  "get_errors h = filter_by_level h [''ERROR'', ''FATAL'', ''CRITICAL'']"

definition get_warnings :: "loghunter \<Rightarrow> logline list" where
  "get_warnings h = filter_by_level h [''WARN'', ''WARNING'']"

definition get_exceptions :: "loghunter \<Rightarrow> logline list" where
  "get_exceptions h = [l \<leftarrow> lines h. matches_pattern l exception]"

text \<open>
  \<^verbatim>\<open>collections.Counter\<close> is a dictionary in insertion order: a list of keys with their
  counts, a new key at the end. A key that is missing counts as zero. \<^verbatim>\<open>most_common(n)\<close> is
  \<^verbatim>\<open>heapq.nlargest\<close> by count, which Python documents as the first \<open>n\<close> entries of the stable
  sort by descending count; for \<open>n \<le> 0\<close> it is empty.
\<close>

fun counter_add :: "('a \<times> nat) list \<Rightarrow> 'a \<Rightarrow> ('a \<times> nat) list" where
  "counter_add [] x = [(x, 1)]"
| "counter_add ((k, c) # kcs) x =
     (if k = x then (k, Suc c) # kcs else (k, c) # counter_add kcs x)"

definition Counter :: "'a list \<Rightarrow> ('a \<times> nat) list" where
  "Counter xs = foldl counter_add [] xs"

definition counter_get :: "('a \<times> nat) list \<Rightarrow> 'a \<Rightarrow> nat" where
  "counter_get c k = (case map_of c k of None \<Rightarrow> 0 | Some n \<Rightarrow> n)"


text \<open>
  \<^verbatim>\<open>LogHunter.get_statistics\<close>. The snapshot is a dictionary from keys to values of several
  kinds; the three time keys are added only when the list of timestamps is not empty.
\<close>

datatype stat_value =
    IntV int
  | CounterV "(string \<times> nat) list"
  | TimeV datetime
  | SpanV timedelta

definition get_statistics :: "loghunter \<Rightarrow> (string \<rightharpoonup> stat_value)" where
  "get_statistics h =
     (let stats =
            [''total_lines'' \<mapsto> IntV (int (length (lines h))),
             ''files'' \<mapsto> IntV (int (card (set (map file_path (lines h))))),
             ''levels'' \<mapsto>
                CounterV (Counter (map (\<lambda>l. the (level l))
                                   [l \<leftarrow> lines h. level l \<noteq> None \<and> level l \<noteq> Some []])),
             ''errors'' \<mapsto> IntV (int (length (get_errors h))),
             ''warnings'' \<mapsto> IntV (int (length (get_warnings h))),
             ''exceptions'' \<mapsto> IntV (int (length (get_exceptions h)))];
          timestamps = map (\<lambda>l. the (timestamp l)) [l \<leftarrow> lines h. timestamp l \<noteq> None]
      in case timestamps of
           [] \<Rightarrow> stats
         | t # ts \<Rightarrow>
             stats(''time_start'' \<mapsto> TimeV (fold min ts t),
                   ''time_end'' \<mapsto> TimeV (fold max ts t),
                   ''time_span'' \<mapsto> SpanV (fold max ts t - fold min ts t)))"

text \<open>
  \<^verbatim>\<open>LogHunter.get_top_patterns\<close>: \<open>normalize\<close> is the body of its loop, with one name for each
  assignment to \<^verbatim>\<open>text\<close>.
\<close>

definition normalize :: "string \<Rightarrow> string" where
  "normalize text0 =
     (let text1 = re_sub timestamp_iso ''[TIMESTAMP]'' text0;
          text2 = re_sub timestamp_common ''[TIMESTAMP]'' text1;
          text3 = re_sub ip_address ''[IP]'' text2;
          text4 = re_sub number ''[NUM]'' text3
      in text4)"



text \<open>
  \<^verbatim>\<open>LogHunter.context\<close>: the loop that collects the slices, then the loop that drops the records
  whose key has been seen. \<open>bef\<close> and \<open>aft\<close> are the arguments \<^verbatim>\<open>before\<close> and \<^verbatim>\<open>after\<close>.
\<close>

fun context_loop :: "logline list \<Rightarrow> int list \<Rightarrow> int \<Rightarrow> int \<Rightarrow> logline list \<Rightarrow> logline list" where
  "context_loop ls [] bef aft result = result"
| "context_loop ls (idx # idxs) bef aft result =
     (let start = max 0 (idx - bef);
          end = min (int (length ls)) (idx + aft + 1)
      in context_loop ls idxs bef aft (result @ py_slice ls (Some start) (Some end)))"

fun unique_loop :: "logline list \<Rightarrow> (string \<times> int) set \<Rightarrow> logline list \<Rightarrow> logline list" where
  "unique_loop [] seen unique = unique"
| "unique_loop (l # ls) seen unique =
     (let key = (file_path l, line_num l)
      in if key \<notin> seen then unique_loop ls (insert key seen) (unique @ [l])
         else unique_loop ls seen unique)"

definition context_lines :: "loghunter \<Rightarrow> int list \<Rightarrow> int \<Rightarrow> int \<Rightarrow> logline list" where
  "context_lines h line_indices bef aft =
     unique_loop (context_loop (lines h) line_indices bef aft []) {} []"

text \<open>
  \<^verbatim>\<open>parse_time_arg\<close>; \<open>now\<close> is the value of \<^verbatim>\<open>datetime.now()\<close>, a naive datetime, and
  \<^verbatim>\<open>datetime.fromisoformat\<close> is a parameter that returns any instant. The relative branch is
  outside the \<^verbatim>\<open>try\<close> block, so the errors of \<^verbatim>\<open>int\<close>, \<^verbatim>\<open>timedelta\<close> and the subtraction
  leave the function as they are. When no branch of the \<^verbatim>\<open>if\<close> chain returns, control reaches
  the absolute form.
\<close>

definition parse_time_arg ::
  "(string \<Rightarrow> py_error + instant) \<Rightarrow> datetime \<Rightarrow> string \<Rightarrow> py_error + instant" where
  "parse_time_arg fromisoformat now time_str =
     (let absolute =
            (case fromisoformat time_str of
               Inr d \<Rightarrow> Inr d
             | Inl e \<Rightarrow> Inl (ValueError (''Invalid time format: '' @ time_str)))
      in case re_match relative_time time_str of
           Some mt \<Rightarrow>
             (case py_int (group time_str mt 1) of
                Inl e \<Rightarrow> Inl e
              | Inr value \<Rightarrow>
                  (let unit = group time_str mt 2
                   in if unit = ''s'' then
                        (case timedelta_new (value * 1000000) of
                           Inl e \<Rightarrow> Inl e | Inr td \<Rightarrow> datetime_sub now td)
                      else if unit = ''m'' then
                        (case timedelta_new (value * 60 * 1000000) of
                           Inl e \<Rightarrow> Inl e | Inr td \<Rightarrow> datetime_sub now td)
                      else if unit = ''h'' then
                        (case timedelta_new (value * 3600 * 1000000) of
                           Inl e \<Rightarrow> Inl e | Inr td \<Rightarrow> datetime_sub now td)
                      else if unit = ''d'' then
                        (case timedelta_new (value * day_us) of
                           Inl e \<Rightarrow> Inl e | Inr td \<Rightarrow> datetime_sub now td)
                      else absolute))
         | None \<Rightarrow> absolute)"

subsection \<open>Sample data\<close>

text \<open>
  Instances of \<^verbatim>\<open>datetime.fromisoformat\<close> for the concrete checks. \<open>fromisoformat_basic\<close>
  reads the form \<^verbatim>\<open>YYYY-MM-DDTHH:MM:SS\<close>, which has no offset, and rejects every other text;
  \<open>fromisoformat_utc\<close> reads this form as a naive instant and the same form followed by
  \<^verbatim>\<open>+00:00\<close> as an aware one.
\<close>

definition is_leap :: "int \<Rightarrow> bool" where
  "is_leap y = (y mod 4 = 0 \<and> (y mod 100 \<noteq> 0 \<or> y mod 400 = 0))"

definition days_in_month :: "int \<Rightarrow> int \<Rightarrow> int" where
  "days_in_month y mo =
     (if mo = 2 then (if is_leap y then 29 else 28)
      else if mo \<in> {4, 6, 9, 11} then 30 else 31)"

definition ymd2ord :: "int \<Rightarrow> int \<Rightarrow> int \<Rightarrow> int" where
  "ymd2ord y mo d =
     (y - 1) * 365 + (y - 1) div 4 - (y - 1) div 100 + (y - 1) div 400
       + sum_list (map (days_in_month y) [1..mo - 1]) + d"

definition fromisoformat_basic :: "string \<Rightarrow> py_error + datetime" where
  "fromisoformat_basic s =
     (if list_all2 in_class
           [Digit, Digit, Digit, Digit, Lit CHR ''-'', Digit, Digit, Lit CHR ''-'', Digit, Digit,
            Lit CHR ''T'', Digit, Digit, Lit CHR '':'', Digit, Digit, Lit CHR '':'', Digit, Digit] s
      then
        (let y = digits_value (take 4 s); mo = digits_value (take 2 (drop 5 s));
             d = digits_value (take 2 (drop 8 s)); hh = digits_value (take 2 (drop 11 s));
             mi = digits_value (take 2 (drop 14 s)); ss = digits_value (take 2 (drop 17 s))
         in if 1 \<le> y \<and> 1 \<le> mo \<and> mo \<le> 12 \<and> 1 \<le> d \<and> d \<le> days_in_month y mo
               \<and> hh \<le> 23 \<and> mi \<le> 59 \<and> ss \<le> 59
            then Inr (((((ymd2ord y mo d - 1) * 24 + hh) * 60 + mi) * 60 + ss) * 1000000)
            else Inl (ValueError ''invalid date or time''))
      else Inl (ValueError (''Invalid isoformat string: '' @ s)))"

definition fromisoformat_utc :: "string \<Rightarrow> py_error + instant" where
  "fromisoformat_utc s =
     (if length s = 25 \<and> drop 19 s = ''+00:00'' then
        (case fromisoformat_basic (take 19 s) of Inl e \<Rightarrow> Inl e | Inr d \<Rightarrow> Inr (Aware d))
      else
        (case fromisoformat_basic s of Inl e \<Rightarrow> Inl e | Inr d \<Rightarrow> Inr (Naive d)))"

text \<open>Sample records and stores for the concrete checks.\<close>

definition rec :: "int \<Rightarrow> datetime option \<Rightarrow> string option \<Rightarrow> logline" where
  "rec k ts lv =
     \<lparr>line = ''x'', line_num = k, file_path = ''app.log'', timestamp = ts, level = lv\<rparr>"

definition store3 :: loghunter where
  "store3 = \<lparr>lines = [rec 1 None (Some ''ERROR''), rec 2 (Some 50) (Some ''INFO''),
                      rec 3 (Some 70) (Some ''WARN'')]\<rparr>"

definition store_plain :: loghunter where
  "store_plain = \<lparr>lines = [rec 1 None (Some ''ERROR''), rec 2 None None]\<rparr>"


subsection \<open>The specification in its own words\<close>

text \<open>
  The specification of \<open>context\<close> in its own words: the inclusive window
  \<open>[idx - bef, idx + aft]\<close> cut to the store positions, the windows joined in the order of the
  indices, and of the records with one (\<open>file_path\<close>, \<open>line_num\<close>) pair only the first kept.
\<close>

definition window_spec :: "logline list \<Rightarrow> int \<Rightarrow> int \<Rightarrow> int \<Rightarrow> logline list" where
  "window_spec ls idx bef aft =
     map (\<lambda>p. ls ! nat p) [max 0 (idx - bef) .. min (int (length ls) - 1) (idx + aft)]"

fun keep_first :: "('a \<Rightarrow> 'k) \<Rightarrow> 'a list \<Rightarrow> 'a list" where
  "keep_first key [] = []"
| "keep_first key (x # xs) = x # keep_first key [y \<leftarrow> xs. key y \<noteq> key x]"

definition context_spec :: "loghunter \<Rightarrow> int list \<Rightarrow> int \<Rightarrow> int \<Rightarrow> logline list" where
  "context_spec h line_indices bef aft =
     keep_first (\<lambda>l. (file_path l, line_num l))
       (concat (map (\<lambda>idx. window_spec (lines h) idx bef aft) line_indices))"

text \<open>
  The relative form of a time argument in the words of the specification: \<open>text\<close> matches
  \<^verbatim>\<open>^(\d+)([smhd])$\<close> with the digits \<open>ds\<close> and the unit \<open>u\<close>; as in Python, \<^verbatim>\<open>$\<close> also accepts
  one newline at the end. \<open>unit_us\<close> is the length of a unit in microseconds.
\<close>

definition relative_form :: "string \<Rightarrow> string \<Rightarrow> char \<Rightarrow> bool" where
  "relative_form text ds u =
     (ds \<noteq> [] \<and> list_all is_digit ds \<and> u \<in> set ''smhd'' \<and>
      (text = ds @ [u] \<or> text = ds @ [u, CHR 0x0A]))"

definition unit_us :: "char \<Rightarrow> int" where
  "unit_us u =
     (if u = CHR ''s'' then 1000000 else if u = CHR ''m'' then 60 * 1000000
      else if u = CHR ''h'' then 3600 * 1000000 else 86400 * 1000000)"

text \<open>
  The timestamp pattern \<^verbatim>\<open>\d{4}-\d{2}-\d{2}[T ]\d{2}:\d{2}:\d{2}\<close> in the words of the
  specification, one character class for each of its 19 characters: \<open>iso_shape w\<close> says that
  the text \<open>w\<close> matches the pattern.
\<close>

definition iso_classes :: "cclass list" where
  "iso_classes =
     [Digit, Digit, Digit, Digit, Lit CHR ''-'', Digit, Digit, Lit CHR ''-'', Digit, Digit,
      OneOf ''T '', Digit, Digit, Lit CHR '':'', Digit, Digit, Lit CHR '':'', Digit, Digit]"

definition iso_shape :: "string \<Rightarrow> bool" where
  "iso_shape w = list_all2 in_class iso_classes w"


subsection \<open>Notions used in the proofs\<close>

text \<open>
  A pattern that is a fixed sequence of character classes matches at a position exactly when
  the characters from that position on fit the classes, and then in one way only.
\<close>

definition matches_fixed :: "regex \<Rightarrow> cclass list \<Rightarrow> bool" where
  "matches_fixed r cs =
     (\<forall>s i g. m r s (i, g) =
        (if list_all2 in_class cs (take (length cs) (drop i s)) then [(i + length cs, g)] else []))"

text \<open>
  The least number of characters that a match of a pattern takes up.
\<close>

fun min_len :: "regex \<Rightarrow> nat" where
  "min_len (Cls c) = 1"
| "min_len WordB = 0"
| "min_len Bol = 0"
| "min_len Eol = 0"
| "min_len (Cat []) = 0"
| "min_len (Cat (r # rs)) = min_len r + min_len (Cat rs)"
| "min_len (Alt []) = 0"
| "min_len (Alt [r]) = min_len r"
| "min_len (Alt (r # r' # rs)) = min (min_len r) (min_len (Alt (r' # rs)))"
| "min_len (Rep r lo hi) = lo * min_len r"
| "min_len (Many c lo) = lo"
| "min_len (Grp k r) = min_len r"

section \<open>Slicing\<close>

lemma py_slice_to: "0 \<le> n \<Longrightarrow> py_slice xs None (Some n) = take (nat n) xs"
  by (simp add: py_slice_def slice_index_def Let_def min_def)

lemma py_slice_to_neg: "n < 0 \<Longrightarrow> py_slice xs None (Some n) = take (nat (int (length xs) + n)) xs"
  by (auto simp: py_slice_def slice_index_def Let_def max_def)

lemma py_slice_from: "0 \<le> n \<Longrightarrow> py_slice xs (Some n) None = drop (nat n) xs"
  by (simp add: py_slice_def slice_index_def Let_def min_def)

lemma py_slice_from_neg:
  "n < 0 \<Longrightarrow> py_slice xs (Some n) None = drop (nat (int (length xs) + n)) xs"
  by (auto simp: py_slice_def slice_index_def Let_def max_def)

lemma head_nonneg: "0 \<le> n \<Longrightarrow> head h n = take (nat n) (lines h)"
  by (simp add: head_def py_slice_to)

lemma head_neg: "n < 0 \<Longrightarrow> head h n = take (nat (int (length (lines h)) + n)) (lines h)"
  by (simp add: head_def py_slice_to_neg)

lemma tail_pos: "0 < n \<Longrightarrow> tail h n = drop (nat (int (length (lines h)) - n)) (lines h)"
  using py_slice_from_neg [of "- n" "lines h"] by (simp add: tail_def)

lemma tail_nonpos: "n \<le> 0 \<Longrightarrow> tail h n = drop (nat (- n)) (lines h)"
  using py_slice_from [of "- n" "lines h"] by (simp add: tail_def)

section \<open>head and tail\<close>

lemma take_drop_disjoint_iff:
  "distinct xs \<Longrightarrow> (set (take a xs) \<inter> set (drop b xs) = {}) = (a \<le> b \<or> length xs \<le> b)"
proof
  assume d: "distinct xs" and e: "set (take a xs) \<inter> set (drop b xs) = {}"
  show "a \<le> b \<or> length xs \<le> b"
  proof (rule ccontr)
    assume "\<not> (a \<le> b \<or> length xs \<le> b)"
    then have b: "b < a" "b < length xs" by auto
    then have "xs ! b \<in> set (take a xs)"
      by (metis in_set_conv_nth length_take min_less_iff_conj nth_take)
    moreover from b have "xs ! b \<in> set (drop b xs)"
      by (metis Cons_nth_drop_Suc list.set_intros(1))
    ultimately show False using e by blast
  qed
next
  assume d: "distinct xs" and "a \<le> b \<or> length xs \<le> b"
  then show "set (take a xs) \<inter> set (drop b xs) = {}"
    using set_take_disj_set_drop_if_distinct [of xs a b] by auto
qed

lemma take_drop_split: "a \<le> b \<Longrightarrow> \<exists>mid. xs = take a xs @ mid @ drop b xs"
proof -
  assume "a \<le> b"
  then have "take a xs @ take (b - a) (drop a xs) @ drop b xs = xs"
    by (metis append_take_drop_id drop_drop le_add_diff_inverse2 append_assoc add.commute)
  then show ?thesis by metis
qed

text \<open>
  Claim C1, as the code has it. For \<open>n\<close> at least the store size, \<open>head n\<close> and \<open>tail n\<close>
  together cover the whole store. The two results occupy separate store positions (the store
  is \<open>head n\<close>, then some records, then \<open>tail n\<close>) when \<open>0 \<le> n\<close> and \<open>2 n\<close> is at most the
  store size, or \<open>n < 0\<close> and the store size is at most \<open>- 2 n\<close>; and in a store of pairwise
  different records with \<open>n\<close> below the store size, they have no record in common in exactly
  these two cases.
\<close>

theorem head_tail_cover_disjoint:
  "(int (length (lines h)) \<le> n \<longrightarrow> set (head h n) \<union> set (tail h n) = set (lines h)) \<and>
   ((0 \<le> n \<and> 2 * n \<le> int (length (lines h))) \<or> (n < 0 \<and> int (length (lines h)) \<le> - 2 * n)
      \<longrightarrow> (\<exists>mid. lines h = head h n @ mid @ tail h n)) \<and>
   (distinct (lines h) \<and> n < int (length (lines h)) \<longrightarrow>
      (set (head h n) \<inter> set (tail h n) = {}) =
      ((0 \<le> n \<and> 2 * n \<le> int (length (lines h))) \<or> (n < 0 \<and> int (length (lines h)) \<le> - 2 * n)))"
proof (intro conjI impI)
  assume "int (length (lines h)) \<le> n"
  then show "set (head h n) \<union> set (tail h n) = set (lines h)"
    by (cases "n = 0") (auto simp: head_nonneg tail_pos tail_nonpos)
next
  assume c: "(0 \<le> n \<and> 2 * n \<le> int (length (lines h))) \<or> (n < 0 \<and> int (length (lines h)) \<le> - 2 * n)"
  show "\<exists>mid. lines h = head h n @ mid @ tail h n"
  proof (cases "0 < n")
    case True
    with c have "nat n \<le> nat (int (length (lines h)) - n)" by linarith
    from take_drop_split [OF this] show ?thesis using True by (simp add: head_nonneg tail_pos)
  next
    case False
    show ?thesis
    proof (cases "n = 0")
      case True
      then show ?thesis by (simp add: head_nonneg tail_nonpos)
    next
      case f: False
      with False c have "nat (int (length (lines h)) + n) \<le> nat (- n)" by linarith
      from take_drop_split [OF this] show ?thesis using False f by (simp add: head_neg tail_nonpos)
    qed
  qed
next
  assume a: "distinct (lines h) \<and> n < int (length (lines h))"
  show "(set (head h n) \<inter> set (tail h n) = {}) =
      ((0 \<le> n \<and> 2 * n \<le> int (length (lines h))) \<or> (n < 0 \<and> int (length (lines h)) \<le> - 2 * n))"
  proof (cases "0 < n")
    case True
    with a show ?thesis by (simp add: head_nonneg tail_pos take_drop_disjoint_iff) linarith
  next
    case False
    show ?thesis
    proof (cases "n = 0")
      case True
      then show ?thesis by (simp add: head_nonneg tail_nonpos)
    next
      case f: False
      with False a show ?thesis by (simp add: head_neg tail_nonpos take_drop_disjoint_iff) linarith
    qed
  qed
qed

text \<open>
  Claim C1 as stated fails: in a store of three records, \<open>head 2\<close> and \<open>tail 2\<close> both
  contain the middle record although \<open>2\<close> is below the store size.
\<close>

theorem head_tail_overlap_counterexample:
  "(2::int) < int (length (lines store3)) \<and> set (head store3 2) \<inter> set (tail store3 2) \<noteq> {}"
  by (simp add: store3_def head_def tail_def py_slice_def slice_index_def rec_def)

theorem head_tail_cover_disjoint_witness:
  "set (head store3 5) \<union> set (tail store3 5) = set (lines store3) \<and>
   (\<exists>mid. lines store3 = head store3 1 @ mid @ tail store3 1) \<and>
   set (head store3 1) \<inter> set (tail store3 1) = {} \<and>
   set (head store3 2) \<inter> set (tail store3 2) \<noteq> {}"
  using head_tail_cover_disjoint [of store3 5] head_tail_cover_disjoint [of store3 1]
    head_tail_cover_disjoint [of store3 2]
  by (simp add: store3_def rec_def)

text \<open>
  Claim C2: \<open>head n\<close> is the first \<open>min n size\<close> records and \<open>tail n\<close> the last \<open>min n size\<close>
  records for every non-negative \<open>n\<close>. The code misses it at \<open>n = 0\<close>: the slice
  \<^verbatim>\<open>self.lines[-0:]\<close> is \<^verbatim>\<open>self.lines[0:]\<close>, so \<open>tail 0\<close> of a non-empty store is the whole
  store, while \<open>head 0\<close> is empty.
\<close>

theorem tail_zero_returns_whole_store:
  "lines store3 \<noteq> [] \<and> tail store3 0 = lines store3 \<and> head store3 0 = []"
  by (simp add: store3_def tail_def head_def py_slice_def slice_index_def)

text \<open>The part of C2 that the code does satisfy: every \<open>head\<close>, and \<open>tail n\<close> for positive \<open>n\<close>.\<close>

lemma head_first_tail_last:
  "(0 \<le> n \<longrightarrow> head h n = take (min (nat n) (length (lines h))) (lines h)) \<and>
   (0 < n \<longrightarrow> tail h n = drop (length (lines h) - min (nat n) (length (lines h))) (lines h)) \<and>
   (lines h = [] \<longrightarrow> head h n = [] \<and> tail h n = [])"
proof (intro conjI impI)
  assume "0 \<le> n"
  then show "head h n = take (min (nat n) (length (lines h))) (lines h)"
    by (simp add: head_nonneg min_def)
next
  assume "0 < n"
  moreover have "nat (int (length (lines h)) - n) = length (lines h) - min (nat n) (length (lines h))"
    using \<open>0 < n\<close> by (simp add: min_def) linarith
  ultimately show "tail h n = drop (length (lines h) - min (nat n) (length (lines h))) (lines h)"
    by (simp add: tail_pos)
next
  assume "lines h = []"
  then show "head h n = []" by (simp add: head_def)
next
  assume "lines h = []"
  then show "tail h n = []" by (simp add: tail_def)
qed

section \<open>Filters\<close>

lemma time_range_loop_naive:
  "time_range_loop ls (map_option Naive start) (map_option Naive end) result =
     Inr (result @ [l \<leftarrow> ls. case timestamp l of None \<Rightarrow> False
                 | Some ts \<Rightarrow> (case start of None \<Rightarrow> True | Some s \<Rightarrow> s \<le> ts) \<and>
                             (case end of None \<Rightarrow> True | Some e \<Rightarrow> ts \<le> e)])"
  by (induction ls arbitrary: result)
     (auto simp: datetime_lt_def datetime_gt_def split: option.splits)

lemma time_range_loop_timestamps:
  "time_range_loop ls lo hi result = Inr rs \<Longrightarrow> \<forall>l \<in> set result. timestamp l \<noteq> None \<Longrightarrow>
     \<forall>l \<in> set rs. timestamp l \<noteq> None"
proof (induction ls arbitrary: result)
  case Nil
  then show ?case by simp
next
  case (Cons l ls)
  show ?case
  proof (cases "timestamp l")
    case None
    with Cons.prems have "time_range_loop ls lo hi result = Inr rs" by simp
    from Cons.IH [OF this Cons.prems(2)] show ?thesis .
  next
    case (Some ts)
    with Cons.prems(1) consider "time_range_loop ls lo hi result = Inr rs"
      | "time_range_loop ls lo hi (result @ [l]) = Inr rs"
      by (auto split: sum.splits if_splits)
    then show ?thesis
    proof cases
      case 1
      from Cons.IH [OF this Cons.prems(2)] show ?thesis .
    next
      case 2
      have "\<forall>x \<in> set (result @ [l]). timestamp x \<noteq> None"
        using Cons.prems(2) Some by simp
      from Cons.IH [OF 2 this] show ?thesis .
    qed
  qed
qed

text \<open>
  Claim C4, as the code has it. For naive bounds, each of them given or absent,
  \<open>filter_by_time_range start end\<close> returns, in store order, exactly the records whose timestamp
  is present and lies within the bounds that are given. For any bounds \<open>lo\<close> and \<open>hi\<close>, no
  record without a timestamp is in a result that it returns.
\<close>

theorem filter_by_time_range_exact:
  "filter_by_time_range h (map_option Naive start) (map_option Naive end) =
     Inr [l \<leftarrow> lines h. case timestamp l of None \<Rightarrow> False
                 | Some ts \<Rightarrow> (case start of None \<Rightarrow> True | Some s \<Rightarrow> s \<le> ts) \<and>
                             (case end of None \<Rightarrow> True | Some e \<Rightarrow> ts \<le> e)] \<and>
   (\<forall>rs. filter_by_time_range h lo hi = Inr rs \<longrightarrow> [l \<leftarrow> rs. timestamp l = None] = [])"
proof (intro conjI allI impI)
  show "filter_by_time_range h (map_option Naive start) (map_option Naive end) =
     Inr [l \<leftarrow> lines h. case timestamp l of None \<Rightarrow> False
                 | Some ts \<Rightarrow> (case start of None \<Rightarrow> True | Some s \<Rightarrow> s \<le> ts) \<and>
                             (case end of None \<Rightarrow> True | Some e \<Rightarrow> ts \<le> e)]"
    by (simp add: filter_by_time_range_def time_range_loop_naive)
next
  fix rs assume "filter_by_time_range h lo hi = Inr rs"
  then have "\<forall>l \<in> set rs. timestamp l \<noteq> None"
    using time_range_loop_timestamps [of "lines h" lo hi "[]" rs]
    by (simp add: filter_by_time_range_def)
  then show "[l \<leftarrow> rs. timestamp l = None] = []"
    by (simp add: filter_empty_conv)
qed

theorem filter_by_time_range_exact_witness:
  "filter_by_time_range store3 (Some (Naive 60)) None = Inr [rec 3 (Some 70) (Some ''WARN'')] \<and>
   filter_by_time_range store3 None None
     = Inr [rec 2 (Some 50) (Some ''INFO''), rec 3 (Some 70) (Some ''WARN'')] \<and>
   [l \<leftarrow> [rec 3 (Some 70) (Some ''WARN'')]. timestamp l = None] = []"
  using filter_by_time_range_exact [of store3 "Some 60" None "Some (Naive 60)" None]
    filter_by_time_range_exact [of store3 None None None None]
  by (simp add: store3_def rec_def)

text \<open>
  Claim C4 as stated fails for an aware bound, which \<^verbatim>\<open>parse_time_arg\<close> returns for a text
  such as \<^verbatim>\<open>2026-01-10T10:00:00+00:00\<close> and \<^verbatim>\<open>main\<close> passes on: the comparison with the naive
  timestamp of the second record fails, and \<open>filter_by_time_range\<close> returns no records but a
  \<^verbatim>\<open>TypeError\<close>.
\<close>

theorem filter_by_time_range_aware_counterexample:
  "filter_by_time_range store3 (Some (Aware 60)) None = Inl TypeError"
  by (simp add: filter_by_time_range_def store3_def rec_def datetime_lt_def)

text \<open>
  Claim C5: when the upper-cased levels of \<open>S\<close> include those of \<open>L\<close>, filtering by \<open>L\<close> and
  then by \<open>S\<close> gives the same sequence as filtering by \<open>L\<close> alone, and both results keep the
  order of the store.
\<close>

theorem filter_by_level_superset:
  assumes "set (map upper L) \<subseteq> set (map upper S)"
  shows "filter_by_level \<lparr>lines = filter_by_level h L\<rparr> S = filter_by_level h L \<and>
         subseq (filter_by_level h L) (lines h) \<and>
         subseq (filter_by_level \<lparr>lines = filter_by_level h L\<rparr> S) (lines h)"
proof -
  have "matches_level l S" if "matches_level l L" for l
    using that assms by (auto simp: matches_level_def split: option.splits if_splits)
  then have "(matches_level l L \<and> matches_level l S) = matches_level l L" for l
    by blast
  then have e: "filter_by_level \<lparr>lines = filter_by_level h L\<rparr> S = filter_by_level h L"
    by (simp add: filter_by_level_def filter_id_conv)
  have "subseq (filter_by_level h L) (lines h)"
    by (simp add: filter_by_level_def)
  with e show ?thesis by simp
qed

theorem filter_by_level_superset_witness:
  "set (map upper [''error'']) \<subseteq> set (map upper [''WARN'', ''Error'']) \<and>
   filter_by_level \<lparr>lines = filter_by_level store3 [''error'']\<rparr> [''WARN'', ''Error'']
     = [rec 1 None (Some ''ERROR'')] \<and>
   filter_by_level store3 [''error''] = [rec 1 None (Some ''ERROR'')]"
proof -
  have s: "set (map upper [''error'']) \<subseteq> set (map upper [''WARN'', ''Error''])"
    by (simp add: upper_def upper_char_def)
  have "filter_by_level store3 [''error''] = [rec 1 None (Some ''ERROR'')]"
    by (simp add: filter_by_level_def store3_def matches_level_def rec_def upper_def upper_char_def)
  with s filter_by_level_superset [OF s, of store3] show ?thesis by simp
qed

section \<open>Statistics\<close>

lemma counter_get_add:
  "counter_get (counter_add c x) k = counter_get c k + (if k = x then 1 else 0)"
  by (induction c x rule: counter_add.induct) (auto simp: counter_get_def)

lemma counter_get_foldl:
  "counter_get (foldl counter_add c xs) k = counter_get c k + count_list xs k"
  by (induction xs arbitrary: c) (auto simp: counter_get_add)

lemma counter_get_Counter: "counter_get (Counter xs) k = count_list xs k"
  using counter_get_foldl [of "[]" xs k] by (simp add: Counter_def counter_get_def)

lemma upper_levels [simp]:
  "upper ''ERROR'' = ''ERROR''" "upper ''FATAL'' = ''FATAL''" "upper ''CRITICAL'' = ''CRITICAL''"
  "upper ''WARN'' = ''WARN''" "upper ''WARNING'' = ''WARNING''"
  by (simp_all add: upper_def upper_char_def)

lemma errors_count:
  "length [l \<leftarrow> ls. matches_level l [''ERROR'', ''FATAL'', ''CRITICAL'']] =
     count_list (map (\<lambda>l. the (level l)) [l \<leftarrow> ls. level l \<noteq> None \<and> level l \<noteq> Some []]) ''ERROR'' +
     count_list (map (\<lambda>l. the (level l)) [l \<leftarrow> ls. level l \<noteq> None \<and> level l \<noteq> Some []]) ''FATAL'' +
     count_list (map (\<lambda>l. the (level l)) [l \<leftarrow> ls. level l \<noteq> None \<and> level l \<noteq> Some []]) ''CRITICAL''"
  by (induction ls) (auto simp: matches_level_def split: option.splits)

lemma warnings_count:
  "length [l \<leftarrow> ls. matches_level l [''WARN'', ''WARNING'']] =
     count_list (map (\<lambda>l. the (level l)) [l \<leftarrow> ls. level l \<noteq> None \<and> level l \<noteq> Some []]) ''WARN'' +
     count_list (map (\<lambda>l. the (level l)) [l \<leftarrow> ls. level l \<noteq> None \<and> level l \<noteq> Some []]) ''WARNING''"
  by (induction ls) (auto simp: matches_level_def split: option.splits)

lemma stats_levels:
  "get_statistics h ''levels'' =
     Some (CounterV (Counter (map (\<lambda>l. the (level l)) [l \<leftarrow> lines h. level l \<noteq> None \<and> level l \<noteq> Some []])))"
  by (simp add: get_statistics_def Let_def split: list.splits)

lemma stats_errors: "get_statistics h ''errors'' = Some (IntV (int (length (get_errors h))))"
  by (simp add: get_statistics_def Let_def split: list.splits)

lemma stats_warnings: "get_statistics h ''warnings'' = Some (IntV (int (length (get_warnings h))))"
  by (simp add: get_statistics_def Let_def split: list.splits)

text \<open>
  Claim C10: in the statistics snapshot the \<open>errors\<close> count is the sum of the histogram entries
  for ERROR, FATAL and CRITICAL, and the \<open>warnings\<close> count is the sum of the entries for WARN and
  WARNING; a level that is not in the histogram counts as zero.
\<close>

theorem statistics_counts_agree:
  "\<exists>hist. get_statistics h ''levels'' = Some (CounterV hist) \<and>
     get_statistics h ''errors'' =
       Some (IntV (int (counter_get hist ''ERROR'' + counter_get hist ''FATAL''
                         + counter_get hist ''CRITICAL''))) \<and>
     get_statistics h ''warnings'' =
       Some (IntV (int (counter_get hist ''WARN'' + counter_get hist ''WARNING'')))"
  unfolding stats_levels stats_errors stats_warnings
  by (simp add: counter_get_Counter get_errors_def get_warnings_def filter_by_level_def
      errors_count warnings_count del: count_list.simps)

lemma timestamps_set:
  "set (map (\<lambda>l. the (timestamp l)) [l \<leftarrow> ls. timestamp l \<noteq> None]) = Option.these (timestamp ` set ls)"
  by (auto simp: Option.these_def image_iff)

lemma stats_time_some:
  assumes "map (\<lambda>l. the (timestamp l)) [l \<leftarrow> lines h. timestamp l \<noteq> None] = t # ts"
  shows "get_statistics h ''time_start'' = Some (TimeV (fold min ts t))"
    and "get_statistics h ''time_end'' = Some (TimeV (fold max ts t))"
    and "get_statistics h ''time_span'' = Some (SpanV (fold max ts t - fold min ts t))"
  using assms unfolding get_statistics_def Let_def by simp_all

lemma stats_time_none:
  assumes "map (\<lambda>l. the (timestamp l)) [l \<leftarrow> lines h. timestamp l \<noteq> None] = []"
  shows "get_statistics h ''time_start'' = None"
    and "get_statistics h ''time_end'' = None"
    and "get_statistics h ''time_span'' = None"
  using assms unfolding get_statistics_def Let_def by simp_all

text \<open>
  Claim C9: when some record has a timestamp, the snapshot holds the least timestamp, the
  greatest timestamp and their difference; when no record has one, the three keys are not in
  the snapshot at all.
\<close>

theorem statistics_time_fields:
  "((\<exists>l \<in> set (lines h). timestamp l \<noteq> None) \<longrightarrow>
      get_statistics h ''time_start'' = Some (TimeV (Min (Option.these (timestamp ` set (lines h))))) \<and>
      get_statistics h ''time_end'' = Some (TimeV (Max (Option.these (timestamp ` set (lines h))))) \<and>
      get_statistics h ''time_span'' =
        Some (SpanV (Max (Option.these (timestamp ` set (lines h)))
                      - Min (Option.these (timestamp ` set (lines h)))))) \<and>
   ((\<forall>l \<in> set (lines h). timestamp l = None) \<longrightarrow>
      ''time_start'' \<notin> dom (get_statistics h) \<and> ''time_end'' \<notin> dom (get_statistics h) \<and>
      ''time_span'' \<notin> dom (get_statistics h))"
proof (intro conjI impI)
  assume ex: "\<exists>l \<in> set (lines h). timestamp l \<noteq> None"
  define tss where "tss = map (\<lambda>l. the (timestamp l)) [l \<leftarrow> lines h. timestamp l \<noteq> None]"
  from ex have "tss \<noteq> []"
    unfolding tss_def by (simp add: filter_empty_conv)
  then obtain t ts where tss: "tss = t # ts"
    by (cases tss) auto
  have "set tss = Option.these (timestamp ` set (lines h))"
    unfolding tss_def by (rule timestamps_set)
  then have "set (t # ts) = Option.these (timestamp ` set (lines h))"
    by (simp only: tss)
  then have mn: "Min (Option.these (timestamp ` set (lines h))) = fold min ts t"
    and mx: "Max (Option.these (timestamp ` set (lines h))) = fold max ts t"
    using Min.set_eq_fold [of t ts] Max.set_eq_fold [of t ts] by simp_all
  show "get_statistics h ''time_start'' = Some (TimeV (Min (Option.these (timestamp ` set (lines h)))))"
    using stats_time_some(1) [of h t ts] tss by (simp add: tss_def mn)
  show "get_statistics h ''time_end'' = Some (TimeV (Max (Option.these (timestamp ` set (lines h)))))"
    using stats_time_some(2) [of h t ts] tss by (simp add: tss_def mx)
  show "get_statistics h ''time_span'' =
        Some (SpanV (Max (Option.these (timestamp ` set (lines h)))
                      - Min (Option.these (timestamp ` set (lines h)))))"
    using stats_time_some(3) [of h t ts] tss by (simp add: tss_def mn mx)
next
  assume "\<forall>l \<in> set (lines h). timestamp l = None"
  then have e: "map (\<lambda>l. the (timestamp l)) [l \<leftarrow> lines h. timestamp l \<noteq> None] = []"
    by (simp add: filter_empty_conv)
  show "''time_start'' \<notin> dom (get_statistics h)"
    using stats_time_none(1) [OF e] by (simp add: domIff)
  show "''time_end'' \<notin> dom (get_statistics h)"
    using stats_time_none(2) [OF e] by (simp add: domIff)
  show "''time_span'' \<notin> dom (get_statistics h)"
    using stats_time_none(3) [OF e] by (simp add: domIff)
qed

lemma these_store3: "Option.these (timestamp ` set (lines store3)) = {50, 70}"
  by (simp add: store3_def rec_def Option.these_insert_Some Option.these_insert_None)

theorem statistics_time_fields_witness:
  "get_statistics store3 ''time_start'' = Some (TimeV 50) \<and>
   get_statistics store3 ''time_end'' = Some (TimeV 70) \<and>
   get_statistics store3 ''time_span'' = Some (SpanV 20) \<and>
   ''time_start'' \<notin> dom (get_statistics store_plain) \<and>
   ''time_end'' \<notin> dom (get_statistics store_plain) \<and>
   ''time_span'' \<notin> dom (get_statistics store_plain)"
proof -
  have a: "\<exists>l \<in> set (lines store3). timestamp l \<noteq> None"
    by (simp add: store3_def rec_def)
  have b: "\<forall>l \<in> set (lines store_plain). timestamp l = None"
    by (simp add: store_plain_def rec_def)
  show ?thesis
    using statistics_time_fields [of store3] statistics_time_fields [of store_plain] a b
    by (simp add: these_store3)
qed

section \<open>Context windows\<close>

lemma py_slice_upto:
  assumes "0 \<le> a" "0 \<le> e" "e \<le> int (length xs)"
  shows "py_slice xs (Some a) (Some e) = map (\<lambda>p. xs ! nat p) [a .. e - 1]"
proof -
  define lo where "lo = min (nat a) (length xs)"
  have ps: "py_slice xs (Some a) (Some e) = take (nat e - lo) (drop lo xs)"
    using assms by (simp add: py_slice_def slice_index_def Let_def lo_def min_def)
  show ?thesis
  proof (rule nth_equalityI)
    show len: "length (py_slice xs (Some a) (Some e)) = length (map (\<lambda>p. xs ! nat p) [a .. e - 1])"
      using assms unfolding ps lo_def by (simp add: min_def) linarith
    fix k assume k: "k < length (py_slice xs (Some a) (Some e))"
    with len have k': "int k < e - a" by simp
    then have "a + int k \<le> e - 1" by simp
    then have r: "map (\<lambda>p. xs ! nat p) [a .. e - 1] ! k = xs ! nat (a + int k)"
      using k len by simp
    have lt: "nat a + k < length xs" using k' assms by linarith
    then have lo: "lo = nat a" by (simp add: lo_def)
    have "k < nat e - nat a" using k' assms by linarith
    then have "py_slice xs (Some a) (Some e) ! k = xs ! (nat a + k)"
      using lt unfolding ps lo by simp
    also have "nat a + k = nat (a + int k)" using assms by linarith
    finally show "py_slice xs (Some a) (Some e) ! k = map (\<lambda>p. xs ! nat p) [a .. e - 1] ! k"
      using r by simp
  qed
qed

lemma window_slice:
  assumes "0 \<le> idx + aft + 1"
  shows "py_slice ls (Some (max 0 (idx - bef))) (Some (min (int (length ls)) (idx + aft + 1)))
           = window_spec ls idx bef aft"
proof -
  have "min (int (length ls)) (idx + aft + 1) - 1 = min (int (length ls) - 1) (idx + aft)"
    by linarith
  then show ?thesis
    using assms py_slice_upto [of "max 0 (idx - bef)" "min (int (length ls)) (idx + aft + 1)" ls]
    by (simp add: window_spec_def)
qed

lemma context_loop_concat:
  "context_loop ls idxs bef aft result =
     result @ concat (map (\<lambda>idx. py_slice ls (Some (max 0 (idx - bef)))
                                     (Some (min (int (length ls)) (idx + aft + 1)))) idxs)"
  by (induction idxs arbitrary: result) (simp_all add: Let_def)

lemma unique_loop_keep_first:
  "unique_loop ls seen unique =
     unique @ keep_first (\<lambda>l. (file_path l, line_num l))
                [l \<leftarrow> ls. (file_path l, line_num l) \<notin> seen]"
proof (induction ls arbitrary: seen unique)
  case Nil
  show ?case by simp
next
  case (Cons l ls)
  have "[y \<leftarrow> [y \<leftarrow> ls. (file_path y, line_num y) \<notin> seen].
            (file_path y, line_num y) \<noteq> (file_path l, line_num l)]
        = [y \<leftarrow> ls. (file_path y, line_num y) \<notin> insert (file_path l, line_num l) seen]"
    by (simp add: conj_commute)
  with Cons show ?case
    by (simp add: Let_def)
qed

lemma set_keep_first: "set (keep_first key xs) \<subseteq> set xs"
  by (induction key xs rule: keep_first.induct) auto

lemma distinct_keep_first: "distinct (map key (keep_first key xs))"
proof (induction key xs rule: keep_first.induct)
  case (1 key)
  show ?case by simp
next
  case (2 key x xs)
  have "key x \<notin> key ` set (keep_first key [y \<leftarrow> xs. key y \<noteq> key x])"
    using set_keep_first [of key "[y \<leftarrow> xs. key y \<noteq> key x]"] by auto
  with 2 show ?case by simp
qed

lemma set_py_slice: "set (py_slice xs a b) \<subseteq> set xs"
  unfolding py_slice_def Let_def
  by (meson set_take_subset set_drop_subset subset_trans)

lemma set_context_lines: "set (context_lines h idxs bef aft) \<subseteq> set (lines h)"
proof -
  have "set (context_loop (lines h) idxs bef aft []) \<subseteq> set (lines h)"
    using set_py_slice by (fastforce simp: context_loop_concat)
  moreover have "set (context_lines h idxs bef aft) \<subseteq> set (context_loop (lines h) idxs bef aft [])"
    using set_keep_first [of "\<lambda>l. (file_path l, line_num l)" "context_loop (lines h) idxs bef aft []"]
    by (simp add: context_lines_def unique_loop_keep_first)
  ultimately show ?thesis by blast
qed

text \<open>
  Claim C3: for in-range indices and counts \<open>bef\<close>, \<open>aft\<close> that are not negative, \<open>context\<close>
  returns the windows \<open>[idx - bef, idx + aft]\<close> cut to the store, joined in index order, with the
  first record of each (\<open>file_path\<close>, \<open>line_num\<close>) pair kept. In particular (and for all
  arguments) no two returned records have the same pair and every returned record stands at a
  position of the store.
\<close>

theorem context_windows_deduplicated:
  "((\<forall>idx \<in> set idxs. 0 \<le> idx \<and> idx < int (length (lines h))) \<and> 0 \<le> bef \<and> 0 \<le> aft \<longrightarrow>
      context_lines h idxs bef aft = context_spec h idxs bef aft) \<and>
   distinct (map (\<lambda>l. (file_path l, line_num l)) (context_lines h idxs bef aft)) \<and>
   (\<forall>r \<in> set (context_lines h idxs bef aft). \<exists>p < length (lines h). r = lines h ! p)"
proof (intro conjI impI)
  assume a: "(\<forall>idx \<in> set idxs. 0 \<le> idx \<and> idx < int (length (lines h))) \<and> 0 \<le> bef \<and> 0 \<le> aft"
  have eq: "map (\<lambda>idx. py_slice (lines h) (Some (max 0 (idx - bef)))
                     (Some (min (int (length (lines h))) (idx + aft + 1)))) idxs
             = map (\<lambda>idx. window_spec (lines h) idx bef aft) idxs"
  proof (rule map_cong)
    fix idx assume "idx \<in> set idxs"
    with a have "0 \<le> idx + aft + 1" by auto
    then show "py_slice (lines h) (Some (max 0 (idx - bef)))
                 (Some (min (int (length (lines h))) (idx + aft + 1)))
               = window_spec (lines h) idx bef aft"
      by (rule window_slice)
  qed simp
  show "context_lines h idxs bef aft = context_spec h idxs bef aft"
    unfolding context_lines_def context_spec_def context_loop_concat unique_loop_keep_first eq
    by simp
next
  show "distinct (map (\<lambda>l. (file_path l, line_num l)) (context_lines h idxs bef aft))"
    by (simp add: context_lines_def unique_loop_keep_first distinct_keep_first)
next
  show "\<forall>r \<in> set (context_lines h idxs bef aft). \<exists>p < length (lines h). r = lines h ! p"
    using set_context_lines [of h idxs bef aft] by (metis in_set_conv_nth subsetD)
qed

theorem context_windows_deduplicated_witness:
  "context_lines store3 [1, 0] 1 0 = [rec 1 None (Some ''ERROR''), rec 2 (Some 50) (Some ''INFO'')] \<and>
   context_spec store3 [1, 0] 1 0 = [rec 1 None (Some ''ERROR''), rec 2 (Some 50) (Some ''INFO'')]"
proof -
  have a: "(\<forall>idx \<in> set [1, 0 :: int]. 0 \<le> idx \<and> idx < int (length (lines store3))) \<and>
           (0::int) \<le> 1 \<and> (0::int) \<le> 0"
    by (simp add: store3_def)
  have "context_spec store3 [1, 0] 1 0 = [rec 1 None (Some ''ERROR''), rec 2 (Some 50) (Some ''INFO'')]"
    by (simp add: context_spec_def window_spec_def store3_def rec_def upto.simps)
  with a context_windows_deduplicated [of "[1, 0]" store3 1 0] show ?thesis by simp
qed

text \<open>
  The counts are what the claim is about. A negative \<open>after\<close>, which the program never passes
  (it calls \<open>context\<close> with one positive count for both), makes the end of the slice count from
  the end of the store: for index 0 and \<open>after = - 2\<close> the slice is \<^verbatim>\<open>self.lines[0:-1]\<close>.
\<close>

lemma context_negative_after_example:
  "context_lines store3 [0] 0 (- 2) = [rec 1 None (Some ''ERROR''), rec 2 (Some 50) (Some ''INFO'')] \<and>
   context_spec store3 [0] 0 (- 2) = []"
  by (simp add: context_lines_def context_spec_def window_spec_def store3_def rec_def
      py_slice_def slice_index_def Let_def)

section \<open>The time argument parser\<close>

lemma in_class_Digit: "in_class Digit = is_digit"
  by (rule ext) simp

lemma concat_rev_upt_last:
  assumes "\<forall>k < L. F k = []"
  shows "concat (map F (rev [lo..<Suc L])) = (if lo \<le> L then F L else [])"
proof (cases "lo \<le> L")
  case True
  have "concat (map F (rev [lo..<L])) = []"
    using assms by simp
  with True show ?thesis by simp
next
  case False
  then show ?thesis by simp
qed

lemma digit_not_unit: "is_digit c \<Longrightarrow> c \<notin> set ''smhd''"
  by (auto simp: is_digit_def)

lemma m_unit_eol:
  "m (Cat [Grp 2 (Cls (OneOf ''smhd'')), Eol]) s (k, g) =
     (if k < length s \<and> s ! k \<in> set ''smhd'' \<and>
         (Suc k = length s \<or> (Suc (Suc k) = length s \<and> s ! Suc k = CHR 0x0A))
      then [(Suc k, g(2 \<mapsto> (k, Suc k)))] else [])"
  by auto

lemma m_relative_time:
  "m relative_time s (0, g) =
     (let L = length (takeWhile is_digit s)
      in if 1 \<le> L \<and> L < length s \<and> s ! L \<in> set ''smhd'' \<and>
            (Suc L = length s \<or> (Suc (Suc L) = length s \<and> s ! Suc L = CHR 0x0A))
         then [(Suc L, g(1 \<mapsto> (0, L), 2 \<mapsto> (L, Suc L)))] else [])"
proof -
  define L where "L = length (takeWhile is_digit s)"
  define F where "F k = m (Cat [Grp 2 (Cls (OneOf ''smhd'')), Eol]) s (k, g(1 \<mapsto> (0, k)))" for k
  have dig: "is_digit (s ! k)" if "k < L" for k
    using that unfolding L_def by (metis nth_mem set_takeWhileD takeWhile_nth)
  have none: "\<forall>k < L. F k = []"
    using dig digit_not_unit unfolding F_def m_unit_eol by auto
  have "m relative_time s (0, g) = concat (map F (rev [1..<Suc L]))"
    unfolding relative_time_def F_def L_def
    by (simp add: in_class_Digit comp_def del: upt_Suc m.simps(1))
  also have "\<dots> = (if 1 \<le> L then F L else [])"
    using concat_rev_upt_last [OF none] by simp
  finally show ?thesis
    unfolding F_def m_unit_eol L_def Let_def by auto
qed

lemma unit_not_digit: "u \<in> set ''smhd'' \<Longrightarrow> \<not> is_digit u"
  using digit_not_unit by blast

lemma relative_form_match:
  assumes "relative_form text ds u"
  shows "re_match relative_time text =
           Some (0, Suc (length ds),
                 [1 \<mapsto> (0, length ds), 2 \<mapsto> (length ds, Suc (length ds))])"
proof -
  from assms have ds: "ds \<noteq> []" "\<forall>c \<in> set ds. is_digit c" and u: "u \<in> set ''smhd''"
    and t: "text = ds @ [u] \<or> text = ds @ [u, CHR 0x0A]"
    by (auto simp: relative_form_def list_all_iff)
  from t obtain rest where tx: "text = ds @ u # rest" and rest: "rest = [] \<or> rest = [CHR 0x0A]"
    by auto
  have tw: "takeWhile is_digit text = ds"
    unfolding tx using ds(2) unit_not_digit [OF u] by (simp add: takeWhile_tail)
  have nth: "text ! length ds = u"
    unfolding tx by simp
  have cond: "1 \<le> length ds \<and> length ds < length text \<and> text ! length ds \<in> set ''smhd'' \<and>
        (Suc (length ds) = length text \<or>
         (Suc (Suc (length ds)) = length text \<and> text ! Suc (length ds) = CHR 0x0A))"
    using ds(1) u rest nth unfolding tx by (auto simp: nth_append Suc_le_eq)
  show ?thesis
    unfolding re_match_def re_match_at_def m_relative_time tw Let_def
    using cond by simp
qed

lemma match_relative_form:
  assumes "re_match relative_time text \<noteq> None"
  shows "\<exists>ds u. relative_form text ds u"
proof -
  define L where "L = length (takeWhile is_digit text)"
  have c: "1 \<le> L \<and> L < length text \<and> text ! L \<in> set ''smhd'' \<and>
        (Suc L = length text \<or> (Suc (Suc L) = length text \<and> text ! Suc L = CHR 0x0A))"
    using assms unfolding re_match_def re_match_at_def m_relative_time Let_def L_def
    by (auto split: if_splits)
  have tk: "takeWhile is_digit text = take L text"
    unfolding L_def by (metis append_eq_conv_conj takeWhile_dropWhile_id)
  have dr: "drop L text = [text ! L] \<or> drop L text = [text ! L, CHR 0x0A]"
  proof (cases "Suc L = length text")
    case True
    then show ?thesis
      by (metis Cons_nth_drop_Suc drop_all lessI order_refl)
  next
    case False
    with c have l: "Suc (Suc L) = length text" and n: "text ! Suc L = CHR 0x0A" by auto
    have "drop L text = text ! L # drop (Suc L) text"
      using c by (simp add: Cons_nth_drop_Suc)
    moreover have "drop (Suc L) text = [text ! Suc L]"
      using l by (metis Cons_nth_drop_Suc drop_all lessI order_refl)
    ultimately show ?thesis using n by simp
  qed
  have split: "text = take L text @ drop L text" by simp
  have "relative_form text (take L text) (text ! L)"
    unfolding relative_form_def list_all_iff
  proof (intro conjI)
    show "take L text \<noteq> []" using c by auto
    show "\<forall>x \<in> set (take L text). is_digit x"
      using tk by (metis set_takeWhileD)
    show "text ! L \<in> set ''smhd''" using c by simp
    show "text = take L text @ [text ! L] \<or> text = take L text @ [text ! L, CHR 0x0A]"
      using dr split by metis
  qed
  then show ?thesis by blast
qed

lemma digit_value_nonneg: "0 \<le> digit_value c"
  by (simp add: digit_value_def split: option.splits if_splits)

lemma digits_value_fold_nonneg:
  "0 \<le> a \<Longrightarrow> 0 \<le> foldl (\<lambda>a c. 10 * a + digit_value c) a ds"
  by (induction ds arbitrary: a) (simp_all add: digit_value_nonneg)

lemma digits_value_nonneg: "0 \<le> digits_value ds"
  by (simp add: digits_value_def digits_value_fold_nonneg)

lemma unit_us_pos: "0 < unit_us u"
  by (simp add: unit_us_def)

lemma relative_result:
  assumes "relative_form text ds u"
  shows "parse_time_arg fromiso now text =
           (case py_int ds of
              Inl e \<Rightarrow> Inl e
            | Inr v \<Rightarrow>
                (case timedelta_new (v * unit_us u) of
                   Inl e \<Rightarrow> Inl e
                 | Inr td \<Rightarrow> datetime_sub now td))"
proof -
  from assms have u: "u \<in> set ''smhd''" and ds: "ds \<noteq> []"
    and t: "text = ds @ [u] \<or> text = ds @ [u, CHR 0x0A]"
    by (auto simp: relative_form_def)
  have g1: "take (length ds) text = ds" using t by auto
  have g2: "take (Suc 0) (drop (length ds) text) = [u]" using t by auto
  from u have "u = CHR ''s'' \<or> u = CHR ''m'' \<or> u = CHR ''h'' \<or> u = CHR ''d''" by simp
  then show ?thesis
    unfolding parse_time_arg_def relative_form_match [OF assms] Let_def
    by (cases "py_int ds") (auto simp: group_def g1 g2 unit_us_def day_us_def mult.commute)
qed

lemma absolute_result:
  assumes "\<forall>ds u. \<not> relative_form text ds u"
  shows "parse_time_arg fromiso now text =
           (case fromiso text of
              Inr d \<Rightarrow> Inr d
            | Inl e \<Rightarrow> Inl (ValueError (''Invalid time format: '' @ text)))"
proof -
  have "re_match relative_time text = None"
    using assms match_relative_form by blast
  then show ?thesis
    by (simp add: parse_time_arg_def)
qed

lemma relative_in_range:
  assumes "relative_form text ds u" "length ds \<le> 4300"
    and "digits_value ds * unit_us u \<le> now" "now \<le> datetime_max"
  shows "parse_time_arg fromiso now text = Inr (Naive (now - digits_value ds * unit_us u))"
proof -
  have v: "py_int ds = Inr (digits_value ds)"
    using assms(2) by (simp add: py_int_def)
  have nn: "0 \<le> digits_value ds * unit_us u"
    using digits_value_nonneg [of ds] unit_us_pos [of u] by simp
  with assms have "digits_value ds * unit_us u \<le> 3652059 * day_us"
    by (simp add: datetime_max_def day_us_def)
  then have "digits_value ds * unit_us u div day_us \<le> 3652059"
    by (simp add: day_us_def)
  moreover have "0 \<le> digits_value ds * unit_us u div day_us"
    using nn by (simp add: day_us_def pos_imp_zdiv_nonneg_iff)
  ultimately have "timedelta_new (digits_value ds * unit_us u) = Inr (digits_value ds * unit_us u)"
    by (simp add: timedelta_new_def)
  then show ?thesis
    using assms nn by (simp add: relative_result [OF assms(1)] v datetime_sub_def)
qed

text \<open>
  Outside the \<^verbatim>\<open>try\<close> block: an amount that reaches back before the year 1 leaves the parser
  as an \<^verbatim>\<open>OverflowError\<close>, and more than 4300 digits as the \<^verbatim>\<open>ValueError\<close> of \<^verbatim>\<open>int\<close>.
\<close>

lemma relative_out_of_range:
  assumes "relative_form text ds u" "length ds \<le> 4300" "now < digits_value ds * unit_us u"
  shows "parse_time_arg fromiso now text = Inl OverflowError"
  using assms(2,3)
  by (simp add: relative_result [OF assms(1)] py_int_def timedelta_new_def datetime_sub_def)

lemma relative_too_many_digits:
  assumes "relative_form text ds u" "4300 < length ds"
  shows "parse_time_arg fromiso now text =
           Inl (ValueError ''Exceeds the limit (4300 digits) for integer string conversion'')"
  using assms(2) by (simp add: relative_result [OF assms(1)] py_int_def)

text \<open>
  Claim C7, as the code has it. When \<open>text\<close> matches the relative form with at most 4300 digits
  \<open>ds\<close> and the unit \<open>u\<close>, and \<open>now\<close> minus that many units is an instant of the calendar, the
  parser returns it. When \<open>text\<close> does not match, the parser returns what \<^verbatim>\<open>fromisoformat\<close>
  returns for \<open>text\<close>, and when \<^verbatim>\<open>fromisoformat\<close> fails it fails with the invalid-time-format
  error that quotes \<open>text\<close>; for a text that does not match it fails in exactly this case.
\<close>

theorem parse_time_arg_cases:
  "(relative_form text ds u \<and> length ds \<le> 4300 \<and> digits_value ds * unit_us u \<le> now \<and>
    now \<le> datetime_max \<longrightarrow>
      parse_time_arg fromiso now text = Inr (Naive (now - digits_value ds * unit_us u))) \<and>
   ((\<forall>ds u. \<not> relative_form text ds u) \<and> fromiso text = Inr d \<longrightarrow>
      parse_time_arg fromiso now text = Inr d) \<and>
   ((\<forall>ds u. \<not> relative_form text ds u) \<and> fromiso text = Inl e \<longrightarrow>
      parse_time_arg fromiso now text = Inl (ValueError (''Invalid time format: '' @ text))) \<and>
   ((\<forall>ds u. \<not> relative_form text ds u) \<longrightarrow>
      ((\<exists>err. parse_time_arg fromiso now text = Inl err) \<longleftrightarrow> (\<exists>e. fromiso text = Inl e)))"
proof (intro conjI impI)
  assume "relative_form text ds u \<and> length ds \<le> 4300 \<and> digits_value ds * unit_us u \<le> now \<and>
    now \<le> datetime_max"
  then show "parse_time_arg fromiso now text = Inr (Naive (now - digits_value ds * unit_us u))"
    using relative_in_range by blast
next
  assume "(\<forall>ds u. \<not> relative_form text ds u) \<and> fromiso text = Inr d"
  then show "parse_time_arg fromiso now text = Inr d"
    by (simp add: absolute_result)
next
  assume "(\<forall>ds u. \<not> relative_form text ds u) \<and> fromiso text = Inl e"
  then show "parse_time_arg fromiso now text = Inl (ValueError (''Invalid time format: '' @ text))"
    by (simp add: absolute_result)
next
  assume n: "\<forall>ds u. \<not> relative_form text ds u"
  show "(\<exists>err. parse_time_arg fromiso now text = Inl err) \<longleftrightarrow> (\<exists>e. fromiso text = Inl e)"
    by (cases "fromiso text") (simp_all add: absolute_result [OF n])
qed

lemma no_relative_form:
  "re_match relative_time text = None \<Longrightarrow> \<forall>ds u. \<not> relative_form text ds u"
  using relative_form_match by fastforce

lemma iso_example: "fromisoformat_basic ''2026-01-10T10:00:00'' = Inr 63903636000000000"
  by (simp add: fromisoformat_basic_def is_digit_def digits_value_def digit_value_def
      days_in_month_def is_leap_def ymd2ord_def upto.simps)

lemma iso_utc_examples:
  "fromisoformat_utc ''2026-01-10T10:00:00'' = Inr (Naive 63903636000000000)"
  "fromisoformat_utc ''2026-01-10T10:00:00+00:00'' = Inr (Aware 63903636000000000)"
  "fromisoformat_utc ''yesterday'' = Inl (ValueError ''Invalid isoformat string: yesterday'')"
  using iso_example by (simp_all add: fromisoformat_utc_def fromisoformat_basic_def is_digit_def)

theorem parse_time_arg_cases_witness:
  "parse_time_arg fromisoformat_utc 63903636000000000 ''1h'' = Inr (Naive 63903632400000000) \<and>
   parse_time_arg fromisoformat_utc 0 ''2026-01-10T10:00:00'' = Inr (Naive 63903636000000000) \<and>
   parse_time_arg fromisoformat_utc 0 ''yesterday''
     = Inl (ValueError ''Invalid time format: yesterday'')"
proof -
  have r1: "relative_form ''1h'' ''1'' CHR ''h''"
    by (simp add: relative_form_def is_digit_def)
  have l1: "length ''1'' \<le> 4300"
    by simp
  have v1: "digits_value ''1'' * unit_us CHR ''h'' = 3600000000"
    by (simp add: digits_value_def digit_value_def unit_us_def)
  have mx: "(63903636000000000::int) \<le> datetime_max"
    by (simp add: datetime_max_def day_us_def)
  have n2: "\<forall>ds u. \<not> relative_form ''2026-01-10T10:00:00'' ds u"
    by (rule no_relative_form)
       (simp add: re_match_def re_match_at_def m_relative_time is_digit_def)
  have n3: "\<forall>ds u. \<not> relative_form ''yesterday'' ds u"
    by (rule no_relative_form)
       (simp add: re_match_def re_match_at_def m_relative_time is_digit_def)
  show ?thesis
    using parse_time_arg_cases [of "''1h''" "''1''" "CHR ''h''" 63903636000000000 fromisoformat_utc]
      parse_time_arg_cases [of "''2026-01-10T10:00:00''" _ _ 0 fromisoformat_utc
         "Naive 63903636000000000"]
      parse_time_arg_cases [of "''yesterday''" _ _ 0 fromisoformat_utc _
         "ValueError ''Invalid isoformat string: yesterday''"]
      r1 l1 v1 mx n2 n3 iso_utc_examples
    by simp
qed

text \<open>
  Claim C7 as stated fails: \<^verbatim>\<open>1000000d\<close> matches the relative form, but a million days before
  an instant of the year 2026 is before the year 1, so the parser returns no instant and fails
  with an overflow error, which is not the invalid-time-format error.
\<close>

theorem parse_time_arg_overflow_counterexample:
  "relative_form ''1000000d'' ''1000000'' CHR ''d'' \<and>
   parse_time_arg fromisoformat_utc 63903636000000000 ''1000000d'' = Inl OverflowError"
proof -
  have r: "relative_form ''1000000d'' ''1000000'' CHR ''d''"
    by (simp add: relative_form_def is_digit_def)
  have v: "digits_value ''1000000'' * unit_us CHR ''d'' = 86400000000000000"
    by (simp add: digits_value_def digit_value_def unit_us_def)
  have "parse_time_arg fromisoformat_utc 63903636000000000 ''1000000d'' = Inl OverflowError"
    by (rule relative_out_of_range [OF r]) (simp_all add: v)
  with r show ?thesis by simp
qed

text \<open>An absolute time with an offset is returned as an aware instant.\<close>

lemma parse_time_arg_aware_example:
  "parse_time_arg fromisoformat_utc 0 ''2026-01-10T10:00:00+00:00'' = Inr (Aware 63903636000000000)"
proof -
  have "\<forall>ds u. \<not> relative_form ''2026-01-10T10:00:00+00:00'' ds u"
    by (rule no_relative_form)
       (simp add: re_match_def re_match_at_def m_relative_time is_digit_def)
  then show ?thesis
    by (simp add: absolute_result iso_utc_examples)
qed

section \<open>Timestamp extraction\<close>

lemma take1_drop: "take (Suc 0) (drop i s) = (if i < length s then [s ! i] else [])"
  by (simp add: take_Suc_conv_app_nth hd_drop_conv_nth take_Suc)

lemma matches_fixed_Cls: "matches_fixed (Cls c) [c]"
  by (simp add: matches_fixed_def take1_drop)

lemma matches_fixed_Nil: "matches_fixed (Cat []) []"
  by (simp add: matches_fixed_def)

lemma list_all2_take_split:
  "list_all2 P (cs @ ds) (take (length cs + length ds) xs) \<longleftrightarrow>
     list_all2 P cs (take (length cs) xs) \<and> list_all2 P ds (take (length ds) (drop (length cs) xs))"
proof (cases "length cs + length ds \<le> length xs")
  case True
  have "take (length cs + length ds) xs = take (length cs) xs @ take (length ds) (drop (length cs) xs)"
    by (simp add: take_add)
  moreover have "length (take (length cs) xs) = length cs"
    using True by simp
  ultimately show ?thesis
    by (simp add: list_all2_append)
next
  case False
  then have "length (take (length cs + length ds) xs) \<noteq> length (cs @ ds)"
    by simp
  then have l: "\<not> list_all2 P (cs @ ds) (take (length cs + length ds) xs)"
    using list_all2_lengthD by metis
  have "length (take (length cs) xs) \<noteq> length cs \<or>
        length (take (length ds) (drop (length cs) xs)) \<noteq> length ds"
    using False by (cases ds) (auto simp: min_def)
  then have "\<not> (list_all2 P cs (take (length cs) xs) \<and>
               list_all2 P ds (take (length ds) (drop (length cs) xs)))"
    using list_all2_lengthD by metis
  with l show ?thesis by blast
qed

lemma matches_fixed_Cons:
  assumes "matches_fixed r cs" and "matches_fixed (Cat rs) ds"
  shows "matches_fixed (Cat (r # rs)) (cs @ ds)"
  unfolding matches_fixed_def
proof (intro allI)
  fix s i g
  have r: "m r s (i, g) =
      (if list_all2 in_class cs (take (length cs) (drop i s)) then [(i + length cs, g)] else [])"
    using assms(1) by (simp add: matches_fixed_def)
  have rs: "m (Cat rs) s (i + length cs, g) =
      (if list_all2 in_class ds (take (length ds) (drop (i + length cs) s))
       then [(i + length cs + length ds, g)] else [])"
    using assms(2) by (simp add: matches_fixed_def)
  have "drop (i + length cs) s = drop (length cs) (drop i s)"
    by (simp add: add.commute)
  then show "m (Cat (r # rs)) s (i, g) =
      (if list_all2 in_class (cs @ ds) (take (length (cs @ ds)) (drop i s))
       then [(i + length (cs @ ds), g)] else [])"
    using list_all2_take_split [of in_class cs ds "drop i s"]
    by (simp add: r rs add.assoc)
qed

lemma matches_fixed_Rep: "matches_fixed (Rep (Cls c) n n) (replicate n c)"
proof (induction n)
  case 0
  show ?case by (simp add: matches_fixed_def)
next
  case (Suc n)
  show ?case
    unfolding matches_fixed_def
  proof (intro allI)
    fix s i g
    have ih: "m (Rep (Cls c) n n) s (Suc i, g) =
        (if list_all2 in_class (replicate n c) (take n (drop (Suc i) s)) then [(Suc i + n, g)] else [])"
      using Suc by (simp add: matches_fixed_def)
    show "m (Rep (Cls c) (Suc n) (Suc n)) s (i, g) =
        (if list_all2 in_class (replicate (Suc n) c) (take (length (replicate (Suc n) c)) (drop i s))
         then [(i + length (replicate (Suc n) c), g)] else [])"
    proof (cases "i < length s")
      case True
      then have "drop i s = s ! i # drop (Suc i) s"
        by (simp add: Cons_nth_drop_Suc)
      then show ?thesis
        using True by (simp add: ih)
    next
      case False
      then show ?thesis by simp
    qed
  qed
qed

lemma matches_fixed_timestamp_iso: "matches_fixed timestamp_iso iso_classes"
proof -
  have "matches_fixed timestamp_iso
          (replicate 4 Digit @ [Lit CHR ''-''] @ replicate 2 Digit @ [Lit CHR ''-''] @
           replicate 2 Digit @ [OneOf ''T ''] @ replicate 2 Digit @ [Lit CHR '':''] @
           replicate 2 Digit @ [Lit CHR '':''] @ replicate 2 Digit @ [])"
    unfolding timestamp_iso_def digit_def
    by (intro matches_fixed_Cons matches_fixed_Rep matches_fixed_Cls matches_fixed_Nil)
  then show ?thesis
    by (simp add: iso_classes_def numeral_eq_Suc)
qed

lemma length_iso_classes: "length iso_classes = 19"
  by (simp add: iso_classes_def)

lemma iso_shape_length: "iso_shape w \<Longrightarrow> length w = 19"
  using list_all2_lengthD [of in_class iso_classes w] by (simp add: iso_shape_def length_iso_classes)

lemma match_at_timestamp_iso:
  "re_match_at timestamp_iso s i =
     (if iso_shape (take 19 (drop i s)) then Some (i, i + 19, Map.empty) else None)"
  using matches_fixed_timestamp_iso
  by (simp add: re_match_at_def matches_fixed_def iso_shape_def length_iso_classes)

lemma first_match_None:
  "first_match r s is = None \<longleftrightarrow> (\<forall>i \<in> set is. re_match_at r s i = None)"
  by (induction "is") (auto split: option.splits)

lemma first_match_Some:
  "first_match r s is = Some mt \<Longrightarrow>
     \<exists>pre i post. is = pre @ i # post \<and> (\<forall>j \<in> set pre. re_match_at r s j = None) \<and>
        re_match_at r s i = Some mt"
proof (induction "is")
  case Nil
  then show ?case by simp
next
  case (Cons a "is")
  show ?case
  proof (cases "re_match_at r s a")
    case None
    with Cons obtain pre i post where "is = pre @ i # post"
      "\<forall>j \<in> set pre. re_match_at r s j = None" "re_match_at r s i = Some mt"
      by auto
    with None have "a # is = (a # pre) @ i # post \<and>
        (\<forall>j \<in> set (a # pre). re_match_at r s j = None) \<and> re_match_at r s i = Some mt"
      by simp
    then show ?thesis by blast
  next
    case (Some x)
    with Cons.prems have "a # is = [] @ a # is \<and> (\<forall>j \<in> set []. re_match_at r s j = None) \<and>
        re_match_at r s a = Some mt"
      by simp
    then show ?thesis by blast
  qed
qed

lemma upt_split_prefix:
  assumes "[0..<n] = pre @ i # post"
  shows "set pre = {0..<i}"
proof -
  have "length [0..<n] = length (pre @ i # post)"
    using assms by simp
  then have l: "length pre < n"
    by simp
  have "[0..<n] ! length pre = i"
    using assms by simp
  with l have i: "i = length pre" by simp
  have "pre = take (length pre) [0..<n]"
    using assms by simp
  also have "\<dots> = [0..<length pre]"
    using l by simp
  finally have "set pre = set [0..<length pre]"
    by simp
  then show ?thesis
    using i by simp
qed

lemma search_iso_None:
  "re_search timestamp_iso s = None \<longleftrightarrow> (\<forall>i \<le> length s. \<not> iso_shape (take 19 (drop i s)))"
  by (auto simp: re_search_def first_match_None match_at_timestamp_iso less_Suc_eq_le
      simp del: upt_Suc)

lemma search_iso_Some:
  assumes "re_search timestamp_iso s = Some mt"
  shows "\<exists>i. mt = (i, i + 19, Map.empty) \<and> iso_shape (take 19 (drop i s)) \<and>
           (\<forall>j < i. \<not> iso_shape (take 19 (drop j s)))"
proof -
  from assms obtain pre i post where sp: "[0..<Suc (length s)] = pre @ i # post"
    and no: "\<forall>j \<in> set pre. re_match_at timestamp_iso s j = None"
    and at: "re_match_at timestamp_iso s i = Some mt"
    unfolding re_search_def using first_match_Some by blast
  have "set pre = {0..<i}"
    using upt_split_prefix [OF sp] .
  with no have "\<forall>j < i. \<not> iso_shape (take 19 (drop j s))"
    by (auto simp: match_at_timestamp_iso split: if_splits)
  moreover from at have "mt = (i, i + 19, Map.empty) \<and> iso_shape (take 19 (drop i s))"
    by (auto simp: match_at_timestamp_iso split: if_splits)
  ultimately show ?thesis by blast
qed

lemma substring_at:
  "s = pre @ w @ post \<Longrightarrow> take (length w) (drop (length pre) s) = w"
  by simp

lemma iso_shape_at_split:
  assumes "iso_shape (take 19 (drop i s))"
  shows "s = take i s @ take 19 (drop i s) @ drop (i + 19) s \<and> length (take i s) = i"
proof -
  have "length (take 19 (drop i s)) = 19"
    using iso_shape_length [OF assms] .
  then have "i + 19 \<le> length s" by simp
  then have "length (take i s) = i" by simp
  moreover have "s = take i s @ take 19 (drop i s) @ drop (i + 19) s"
    by (metis append_take_drop_id drop_drop add.commute)
  ultimately show ?thesis by blast
qed

lemma search_iso_absent:
  assumes "\<forall>pre w post. s = pre @ w @ post \<longrightarrow> \<not> iso_shape w"
  shows "re_search timestamp_iso s = None"
  unfolding search_iso_None
proof (intro allI impI)
  fix i assume "i \<le> length s"
  show "\<not> iso_shape (take 19 (drop i s))"
  proof
    assume "iso_shape (take 19 (drop i s))"
    with iso_shape_at_split [OF this] assms show False by blast
  qed
qed

lemma search_iso_first:
  assumes s: "s = pre @ w @ post" and w: "iso_shape w"
    and least: "\<forall>pre' w' post'. s = pre' @ w' @ post' \<and> iso_shape w' \<longrightarrow> length pre \<le> length pre'"
  shows "re_search timestamp_iso s = Some (length pre, length pre + 19, Map.empty)"
    and "group0 s (length pre, length pre + 19, Map.empty) = w"
proof -
  have lw: "length w = 19" using iso_shape_length [OF w] .
  have here: "take 19 (drop (length pre) s) = w"
    using substring_at [OF s] lw by simp
  have "length pre \<le> length s" using s by simp
  with here w have "re_search timestamp_iso s \<noteq> None"
    unfolding search_iso_None by auto
  then obtain mt where mt: "re_search timestamp_iso s = Some mt" by blast
  from search_iso_Some [OF mt] obtain i where i: "mt = (i, i + 19, Map.empty)"
    and ati: "iso_shape (take 19 (drop i s))"
    and before: "\<forall>j < i. \<not> iso_shape (take 19 (drop j s))"
    by blast
  have "i \<le> length pre"
    using before here w by (metis not_le_imp_less)
  moreover have "length pre \<le> i"
    using least iso_shape_at_split [OF ati] ati by metis
  ultimately have "i = length pre" by simp
  with mt i show "re_search timestamp_iso s = Some (length pre, length pre + 19, Map.empty)"
    by simp
  show "group0 s (length pre, length pre + 19, Map.empty) = w"
    using here by (simp add: group0_def)
qed

lemma extract_timestamp_total:
  "\<exists>ts. extract_timestamp fromiso ln = Inr ts"
  by (simp add: extract_timestamp_def Let_def split: option.splits sum.splits)

lemma rstrip_prefix: "\<exists>tl. raw = rstrip raw chars @ tl"
proof -
  have "rev raw = takeWhile (\<lambda>c. c \<in> set chars) (rev raw) @ dropWhile (\<lambda>c. c \<in> set chars) (rev raw)"
    by simp
  then have "raw = rev (dropWhile (\<lambda>c. c \<in> set chars) (rev raw)) @
                   rev (takeWhile (\<lambda>c. c \<in> set chars) (rev raw))"
    by (metis rev_append rev_rev_ident)
  then show ?thesis
    unfolding rstrip_def by blast
qed

lemma iso_shape_last_digit:
  assumes "iso_shape w"
  shows "w \<noteq> [] \<and> is_digit (last w)"
proof -
  have l: "length w = 19" using iso_shape_length [OF assms] .
  then have ne: "w \<noteq> []" by auto
  have "in_class (iso_classes ! 18) (w ! 18)"
    using assms l unfolding iso_shape_def by (simp add: list_all2_conv_all_nth)
  moreover have "iso_classes ! 18 = Digit"
    by (simp add: iso_classes_def)
  moreover have "last w = w ! 18"
    using l ne by (simp add: last_conv_nth)
  ultimately show ?thesis using ne by simp
qed

lemma rstrip_keeps_match:
  assumes "raw = pre @ w @ post" and "iso_shape w"
  shows "\<exists>post'. rstrip raw [CHR 0x0A, CHR 0x0D] = pre @ w @ post'"
proof -
  define P where "P = (\<lambda>c. c \<in> set [CHR 0x0A, CHR 0x0D])"
  from iso_shape_last_digit [OF assms(2)] have ne: "w \<noteq> []" and d: "is_digit (last w)"
    by auto
  from d have np: "\<not> P (last w)"
    by (auto simp: P_def is_digit_def)
  have hd: "hd (rev w @ rev pre) = last w"
    using ne by (simp add: hd_rev)
  have "dropWhile P (rev w @ rev pre) = rev w @ rev pre"
    using ne np hd by (metis (no_types) Nil_is_append_conv Nil_is_rev_conv dropWhile_eq_self_iff)
  then have "\<exists>zs. dropWhile P (rev post @ rev w @ rev pre) = zs @ rev w @ rev pre"
    by (metis append_Nil dropWhile_append)
  then obtain zs where "dropWhile P (rev raw) = zs @ rev w @ rev pre"
    using assms(1) by auto
  then have "rstrip raw [CHR 0x0A, CHR 0x0D] = pre @ w @ rev zs"
    unfolding rstrip_def P_def by simp
  then show ?thesis by blast
qed

text \<open>
  Claim C6: construction of a line record never fails. If no part of the raw line matches the
  timestamp pattern, the record has no timestamp. Otherwise let \<open>w\<close> be the leftmost part that
  matches, with its blank replaced by \<open>T\<close>: the timestamp is what \<^verbatim>\<open>fromisoformat\<close> returns for
  it, and it is absent when \<^verbatim>\<open>fromisoformat\<close> fails.
\<close>

theorem timestamp_extraction:
  "(\<exists>r. LogLine fromiso raw num path = Inr r) \<and>
   ((\<forall>pre w post. raw = pre @ w @ post \<longrightarrow> \<not> iso_shape w) \<longrightarrow>
      (\<exists>r. LogLine fromiso raw num path = Inr r \<and> timestamp r = None)) \<and>
   (raw = pre @ w @ post \<and> iso_shape w \<and>
    (\<forall>pre' w' post'. raw = pre' @ w' @ post' \<and> iso_shape w' \<longrightarrow> length pre \<le> length pre') \<longrightarrow>
      (\<exists>r. LogLine fromiso raw num path = Inr r \<and>
           timestamp r = (case fromiso (replace_char w CHR '' '' CHR ''T'') of
                            Inr d \<Rightarrow> Some d
                          | Inl e \<Rightarrow> None)))"
proof (intro conjI impI)
  show "\<exists>r. LogLine fromiso raw num path = Inr r"
    using extract_timestamp_total [of fromiso "rstrip raw [CHR 0x0A, CHR 0x0D]"]
    by (auto simp: LogLine_def Let_def)
next
  define ln where "ln = rstrip raw [CHR 0x0A, CHR 0x0D]"
  assume a: "\<forall>pre w post. raw = pre @ w @ post \<longrightarrow> \<not> iso_shape w"
  obtain tl where tl: "raw = ln @ tl"
    using rstrip_prefix [of raw] unfolding ln_def by blast
  have "\<forall>pre w post. ln = pre @ w @ post \<longrightarrow> \<not> iso_shape w"
  proof (intro allI impI)
    fix pre w post assume "ln = pre @ w @ post"
    then have "raw = pre @ w @ (post @ tl)" using tl by simp
    with a show "\<not> iso_shape w" by blast
  qed
  then have "re_search timestamp_iso ln = None"
    by (rule search_iso_absent)
  then have "extract_timestamp fromiso ln = Inr None"
    by (simp add: extract_timestamp_def)
  then show "\<exists>r. LogLine fromiso raw num path = Inr r \<and> timestamp r = None"
    by (simp add: LogLine_def Let_def ln_def)
next
  define ln where "ln = rstrip raw [CHR 0x0A, CHR 0x0D]"
  assume a: "raw = pre @ w @ post \<and> iso_shape w \<and>
    (\<forall>pre' w' post'. raw = pre' @ w' @ post' \<and> iso_shape w' \<longrightarrow> length pre \<le> length pre')"
  obtain tl where tl: "raw = ln @ tl"
    using rstrip_prefix [of raw] unfolding ln_def by blast
  from a obtain post' where ln: "ln = pre @ w @ post'"
    using rstrip_keeps_match [of raw pre w post] unfolding ln_def by blast
  have least: "\<forall>pre' w' post'. ln = pre' @ w' @ post' \<and> iso_shape w' \<longrightarrow> length pre \<le> length pre'"
  proof (intro allI impI)
    fix pre' w' post' assume b: "ln = pre' @ w' @ post' \<and> iso_shape w'"
    then have "raw = pre' @ w' @ (post' @ tl)" using tl by simp
    with a b show "length pre \<le> length pre'" by blast
  qed
  from a have w: "iso_shape w" by simp
  have "extract_timestamp fromiso ln =
          (case fromiso (replace_char w CHR '' '' CHR ''T'') of
             Inr d \<Rightarrow> Inr (Some d)
           | Inl e \<Rightarrow> Inr None)"
    by (simp add: extract_timestamp_def search_iso_first [OF ln w least] Let_def)
  then have "LogLine fromiso raw num path =
          Inr \<lparr>line = ln, line_num = num, file_path = path,
               timestamp = (case fromiso (replace_char w CHR '' '' CHR ''T'') of
                              Inr d \<Rightarrow> Some d
                            | Inl e \<Rightarrow> None),
               level = extract_level ln\<rparr>"
    unfolding LogLine_def Let_def ln_def [symmetric]
    by (cases "fromiso (replace_char w CHR '' '' CHR ''T'')") simp_all
  then show "\<exists>r. LogLine fromiso raw num path = Inr r \<and>
           timestamp r = (case fromiso (replace_char w CHR '' '' CHR ''T'') of
                            Inr d \<Rightarrow> Some d
                          | Inl e \<Rightarrow> None)"
    by simp
qed

lemma short_no_iso: "length s < 19 \<Longrightarrow> s = pre @ w @ post \<Longrightarrow> \<not> iso_shape w"
  using iso_shape_length [of w] by auto

lemma search_iso_least:
  assumes "re_search timestamp_iso s = Some (i, j, g)" and "s = pre @ w @ post" and "iso_shape w"
  shows "i \<le> length pre"
proof (rule ccontr)
  assume "\<not> i \<le> length pre"
  then have lt: "length pre < i" by simp
  from search_iso_Some [OF assms(1)] have "\<forall>k < i. \<not> iso_shape (take 19 (drop k s))"
    by auto
  with lt have "\<not> iso_shape (take 19 (drop (length pre) s))" by blast
  moreover have "take 19 (drop (length pre) s) = w"
    using substring_at [OF assms(2)] iso_shape_length [OF assms(3)] by simp
  ultimately show False using assms(3) by simp
qed

lemma search_example:
  "re_search timestamp_iso ''ab 2026-01-10 10:00:00 ERROR'' = Some (3, 22, Map.empty)"
  by (simp add: re_search_def match_at_timestamp_iso iso_shape_def iso_classes_def is_digit_def)

theorem timestamp_extraction_witness:
  "(\<exists>r. LogLine fromisoformat_basic ''ab 2026-01-10 10:00:00 ERROR\<newline>'' 1 ''app.log'' = Inr r \<and>
        timestamp r = Some 63903636000000000) \<and>
   (\<exists>r. LogLine fromisoformat_basic ''plain text'' 2 ''app.log'' = Inr r \<and> timestamp r = None) \<and>
   (\<exists>r. LogLine fromisoformat_basic ''2026-13-10 10:00:00 or 2026-01-10 10:00:00'' 3 ''app.log'' = Inr r \<and>
        timestamp r = None)"
proof -
  have w: "iso_shape ''2026-01-10 10:00:00''"
    by (simp add: iso_shape_def iso_classes_def is_digit_def)
  have s1: "''ab 2026-01-10 10:00:00 ERROR\<newline>'' = ''ab '' @ ''2026-01-10 10:00:00'' @ '' ERROR\<newline>''"
    by simp
  have least1: "\<forall>pre' w' post'. ''ab 2026-01-10 10:00:00 ERROR\<newline>'' = pre' @ w' @ post' \<and> iso_shape w'
       \<longrightarrow> length ''ab '' \<le> length pre'"
  proof (intro allI impI)
    fix pre' w' post'
    assume a: "''ab 2026-01-10 10:00:00 ERROR\<newline>'' = pre' @ w' @ post' \<and> iso_shape w'"
    then obtain post'' where "rstrip ''ab 2026-01-10 10:00:00 ERROR\<newline>'' [CHR 0x0A, CHR 0x0D] = pre' @ w' @ post''"
      using rstrip_keeps_match by blast
    then have "''ab 2026-01-10 10:00:00 ERROR'' = pre' @ w' @ post''"
      by (simp add: rstrip_def)
    from search_iso_least [OF search_example this] a show "length ''ab '' \<le> length pre'"
      by simp
  qed
  have r1: "replace_char ''2026-01-10 10:00:00'' CHR '' '' CHR ''T'' = ''2026-01-10T10:00:00''"
    by (simp add: replace_char_def)
  have none2: "\<forall>pre w post. ''plain text'' = pre @ w @ post \<longrightarrow> \<not> iso_shape w"
  proof (intro allI impI)
    fix pre w post assume e: "''plain text'' = pre @ w @ post"
    from arg_cong [OF e, of length] have "length w \<le> 10" by simp
    then show "\<not> iso_shape w"
      using iso_shape_length [of w] by auto
  qed
  have w3: "iso_shape ''2026-13-10 10:00:00''"
    by (simp add: iso_shape_def iso_classes_def is_digit_def)
  have s3: "''2026-13-10 10:00:00 or 2026-01-10 10:00:00''
              = [] @ ''2026-13-10 10:00:00'' @ '' or 2026-01-10 10:00:00''"
    by simp
  have r3: "fromisoformat_basic (replace_char ''2026-13-10 10:00:00'' CHR '' '' CHR ''T'')
              = Inl (ValueError ''invalid date or time'')"
    by (simp add: replace_char_def fromisoformat_basic_def is_digit_def digits_value_def digit_value_def)
  have p1: "\<exists>r. LogLine fromisoformat_basic ''ab 2026-01-10 10:00:00 ERROR\<newline>'' 1 ''app.log'' = Inr r \<and>
       timestamp r = (case fromisoformat_basic (replace_char ''2026-01-10 10:00:00'' CHR '' '' CHR ''T'') of
                        Inr d \<Rightarrow> Some d
                      | Inl e \<Rightarrow> None)"
    using timestamp_extraction [of fromisoformat_basic "''ab 2026-01-10 10:00:00 ERROR\<newline>''" 1
        "''app.log''" "''ab ''" "''2026-01-10 10:00:00''" "'' ERROR\<newline>''"] w s1 least1
    by blast
  have p2: "\<exists>r. LogLine fromisoformat_basic ''plain text'' 2 ''app.log'' = Inr r \<and> timestamp r = None"
    using timestamp_extraction [of fromisoformat_basic "''plain text''" 2 "''app.log''"] none2
    by blast
  have least3: "\<forall>pre' w' post'. ''2026-13-10 10:00:00 or 2026-01-10 10:00:00'' = pre' @ w' @ post'
       \<and> iso_shape w' \<longrightarrow> length ([] :: string) \<le> length pre'"
    by simp
  have p3: "\<exists>r. LogLine fromisoformat_basic ''2026-13-10 10:00:00 or 2026-01-10 10:00:00'' 3 ''app.log'' = Inr r \<and>
       timestamp r = (case fromisoformat_basic (replace_char ''2026-13-10 10:00:00'' CHR '' '' CHR ''T'') of
                        Inr d \<Rightarrow> Some d
                      | Inl e \<Rightarrow> None)"
    using timestamp_extraction [of fromisoformat_basic "''2026-13-10 10:00:00 or 2026-01-10 10:00:00''" 3
        "''app.log''" "[]" "''2026-13-10 10:00:00''" "'' or 2026-01-10 10:00:00''"] w3 s3 least3
    by blast
  from p1 have q1: "\<exists>r. LogLine fromisoformat_basic ''ab 2026-01-10 10:00:00 ERROR\<newline>'' 1 ''app.log'' = Inr r \<and>
        timestamp r = Some 63903636000000000"
    unfolding r1 iso_example by simp
  from p3 have q3: "\<exists>r. LogLine fromisoformat_basic ''2026-13-10 10:00:00 or 2026-01-10 10:00:00'' 3 ''app.log'' = Inr r \<and>
        timestamp r = None"
    unfolding r3 by simp
  from q1 p2 q3 show ?thesis
    by (intro conjI)
qed

lemma line_record_example:
  "LogLine fromisoformat_basic ''2026-01-10 10:00:00 ERROR Test\<newline>'' 1 ''app.log'' =
     Inr \<lparr>line = ''2026-01-10 10:00:00 ERROR Test'', line_num = 1, file_path = ''app.log'',
          timestamp = Some 63903636000000000, level = Some ''ERROR''\<rparr>"
  by code_simp

section \<open>Pattern frequencies\<close>




















text \<open>
  The order of the substitutions shows: an address is replaced before its numbers are, and
  what an earlier substitution leaves is open to the later ones. A number that touches a word
  character, such as the micro sign 0xB5, is no token of its own.
\<close>

lemma normalize_order_examples:
  "normalize ''from 10.0.0.1'' = ''from [IP]''"
  "normalize ''1.2.3.4.5'' = ''[IP].[NUM]''"
  "normalize (''took 10'' @ [CHR 0xB5] @ ''s'') = ''took 10'' @ [CHR 0xB5] @ ''s''"
  "normalize ''took 10 us'' = ''took [NUM] us''"
  by code_simp+






section \<open>Matches are not empty\<close>

lemma min_len_Alt_Cons: "min_len (Alt (r # rs)) \<le> min_len r"
  by (cases rs) simp_all

lemma min_len_Alt_tail: "rs \<noteq> [] \<Longrightarrow> min_len (Alt (r # rs)) \<le> min_len (Alt rs)"
  by (cases rs) simp_all

lemma m_min_len: "(j, g') \<in> set (m r s (i, g)) \<Longrightarrow> i + min_len r \<le> j"
proof (induction r s "(i, g)" arbitrary: i g j g' rule: m.induct)
  case (6 r rs s i g)
  from "6.prems" obtain k gk where k: "(k, gk) \<in> set (m r s (i, g))"
    and j: "(j, g') \<in> set (m (Cat rs) s (k, gk))"
    by auto
  from "6.hyps"(1) [OF k] have "i + min_len r \<le> k" .
  moreover from "6.hyps"(2) [OF k j] have "k + min_len (Cat rs) \<le> j" .
  ultimately show ?case by simp
next
  case (8 r rs s i g)
  from "8.prems" consider "(j, g') \<in> set (m r s (i, g))" | "(j, g') \<in> set (m (Alt rs) s (i, g))"
    by auto
  then show ?case
  proof cases
    case 1
    from "8.hyps"(1) [OF 1] min_len_Alt_Cons [of r rs] show ?thesis by simp
  next
    case 2
    then have "rs \<noteq> []" by auto
    from "8.hyps"(2) [OF 2] min_len_Alt_tail [OF this, of r] show ?thesis by simp
  qed
next
  case (10 r lo hi s i g)
  show ?case
  proof (cases "lo = 0")
    case True
    with "10.prems" have "i \<le> j"
    proof -
      from "10.prems" consider
        (a) k gk where "(k, gk) \<in> set (m r s (i, g))" "(j, g') \<in> set (m (Rep r (lo - 1) hi) s (k, gk))"
        | (b) "j = i"
        using True by auto
      then show ?thesis
      proof cases
        case a
        from "10.hyps"(1) [OF a(1)] "10.hyps"(2) [OF a(1) a(2)] show ?thesis by simp
      next
        case b
        then show ?thesis by simp
      qed
    qed
    with True show ?thesis by simp
  next
    case False
    with "10.prems" obtain k gk where k: "(k, gk) \<in> set (m r s (i, g))"
      and j: "(j, g') \<in> set (m (Rep r (lo - 1) hi) s (k, gk))"
      by auto
    from "10.hyps"(1) [OF k] have a: "i + min_len r \<le> k" .
    from "10.hyps"(2) [OF k j] have b: "k + (lo - 1) * min_len r \<le> j" by simp
    from False have "lo * min_len r = min_len r + (lo - 1) * min_len r"
      by (cases lo) simp_all
    with a b show ?thesis by simp
  qed
qed (auto split: if_splits)

lemma match_not_empty:
  assumes "re_match_at r s i = Some (a, j, g)" and "0 < min_len r"
  shows "i < j"
proof -
  from assms(1) have "(j, g) \<in> set (m r s (i, Map.empty))"
    by (auto simp: re_match_at_def split: list.splits)
  from m_min_len [OF this] assms(2) show ?thesis by simp
qed

lemma min_len_patterns:
  "min_len timestamp_iso = 19" "min_len timestamp_common = 20" "min_len ip_address = 7"
  "min_len number = 1"
  by (simp_all add: timestamp_iso_def timestamp_common_def ip_address_def number_def digit_def)

end
